theory Spec2Isabelle
  imports Complex_Main
begin

section \<open>Python strings\<close>

text \<open>
  Text is a list of characters, read as ASCII code points, so \<open>length\<close> is Python's
  \<open>len\<close>.  The helpers below are the \<open>str\<close> methods the repository calls, each with
  the behaviour CPython documents for it.
\<close>

text \<open>\<open>str.isspace\<close> on one ASCII character: tab, LF, VT, FF, CR, the four
  separators 0x1C..0x1F and the blank.\<close>

definition is_space :: "char \<Rightarrow> bool" where
  "is_space c = (c \<in> set [CHR 0x09, CHR 0x0A, CHR 0x0B, CHR 0x0C, CHR 0x0D,
                            CHR 0x1C, CHR 0x1D, CHR 0x1E, CHR 0x1F, CHR 0x20])"

definition lower_char :: "char \<Rightarrow> char" where
  "lower_char c =
     (let n = (of_char c :: nat) in if 65 \<le> n \<and> n \<le> 90 then char_of (n + 32) else c)"

text \<open>\<open>s.lower()\<close>\<close>

definition lower :: "string \<Rightarrow> string" where
  "lower s = map lower_char s"

text \<open>\<open>s.strip()\<close>\<close>

definition strip :: "string \<Rightarrow> string" where
  "strip s = rev (dropWhile is_space (rev (dropWhile is_space s)))"

text \<open>\<open>s.endswith(suffix)\<close>\<close>

definition endswith :: "string \<Rightarrow> string \<Rightarrow> bool" where
  "endswith s suffix =
     (length suffix \<le> length s \<and> drop (length s - length suffix) s = suffix)"

text \<open>\<open>sub in s\<close>: \<open>sub\<close> occurs in \<open>s\<close> as a contiguous run.\<close>

fun contains :: "string \<Rightarrow> string \<Rightarrow> bool" where
  "contains [] sub = (sub = [])"
| "contains (c # cs) sub = (take (length sub) (c # cs) = sub \<or> contains cs sub)"

text \<open>
  \<open>s.split()\<close> with no separator: the maximal runs of non-space characters, in order;
  never an empty word.  \<open>cur\<close> holds the word being read, reversed.
\<close>

fun split_ws_from :: "string \<Rightarrow> string \<Rightarrow> string list" where
  "split_ws_from cur [] = (if cur = [] then [] else [rev cur])"
| "split_ws_from cur (c # cs) =
     (if is_space c
      then (if cur = [] then split_ws_from [] cs else rev cur # split_ws_from [] cs)
      else split_ws_from (c # cur) cs)"

definition split_ws :: "string \<Rightarrow> string list" where
  "split_ws s = split_ws_from [] s"

text \<open>
  \<open>s.split(sep)\<close> for a non-empty \<open>sep\<close>: scan from the left, cut at every occurrence
  of \<open>sep\<close> and resume after it; the pieces may be empty.  (Python raises
  \<open>ValueError\<close> for an empty separator; the repository only passes the literal
  \<open>". "\<close>, and the model returns the text uncut there.)
\<close>

function split_from :: "string \<Rightarrow> string \<Rightarrow> string \<Rightarrow> string list" where
  "split_from sep cur [] = [rev cur]"
| "split_from sep cur (c # cs) =
     (if sep \<noteq> [] \<and> take (length sep) (c # cs) = sep
      then rev cur # split_from sep [] (drop (length sep) (c # cs))
      else split_from sep (c # cur) cs)"
  by pat_completeness auto
termination
  by (relation "measure (\<lambda>(sep, cur, s). length s)") auto

definition split_on :: "string \<Rightarrow> string \<Rightarrow> string list" where
  "split_on sep s = split_from sep [] s"

text \<open>\<open>sep.join(parts)\<close>\<close>

fun join :: "string \<Rightarrow> string list \<Rightarrow> string" where
  "join sep [] = []"
| "join sep [x] = x"
| "join sep (x # y # ys) = x @ sep @ join sep (y # ys)"


section \<open>utils/generator.py\<close>

definition insufficient_information :: string where
  "insufficient_information =
     ''I don't have sufficient information in the document to answer this question.''"

definition stopwords :: "string list" where
  "stopwords =
     [''what'', ''is'', ''are'', ''the'', ''a'', ''an'', ''of'', ''in'', ''for'', ''to'', ''and'',
      ''with'', ''on'', ''by'', ''from'', ''about'', ''as'', ''how'', ''much'', ''many'', ''where'',
      ''when'', ''which'', ''who'', ''whom'', ''whose'', ''why'', ''can'', ''could'', ''did'',
      ''do'', ''does'', ''has'', ''have'', ''had'', ''been'', ''being'', ''was'', ''were'', ''will'']"

text \<open>\<open>keywords = [word for word in query_lower.split() if word not in stopwords]\<close>\<close>

definition keywords_of :: "string \<Rightarrow> string list" where
  "keywords_of query = filter (\<lambda>word. word \<notin> set stopwords) (split_ws (lower query))"

text \<open>\<open>any(keyword in text.lower() for keyword in keywords)\<close>\<close>

definition has_keyword :: "string list \<Rightarrow> string \<Rightarrow> bool" where
  "has_keyword keywords text = list_ex (contains (lower text)) keywords"

text \<open>The inner loop over the sentences of one context; \<open>relevant\<close> is
  \<open>relevant_sentences\<close> so far.\<close>

fun scan_sentences :: "string list \<Rightarrow> string list \<Rightarrow> string list \<Rightarrow> string list" where
  "scan_sentences keywords relevant [] = relevant"
| "scan_sentences keywords relevant (sentence # rest) =
     (if has_keyword keywords sentence
      then (if sentence \<notin> set relevant \<and> 10 < length sentence
            then scan_sentences keywords (relevant @ [sentence]) rest
            else scan_sentences keywords relevant rest)
      else scan_sentences keywords relevant rest)"

text \<open>The outer loop over the contexts.\<close>

fun scan_contexts :: "string list \<Rightarrow> string list \<Rightarrow> string list \<Rightarrow> string list" where
  "scan_contexts keywords relevant [] = relevant"
| "scan_contexts keywords relevant (context # rest) =
     (if has_keyword keywords context
      then scan_contexts keywords
             (scan_sentences keywords relevant (split_on ''. '' context)) rest
      else scan_contexts keywords relevant rest)"

text \<open>\<open>clean_sentence\<close>: the sentence stripped, with a period added when it has none.\<close>

definition clean_sentence :: "string \<Rightarrow> string" where
  "clean_sentence sentence =
     (let s = strip sentence in if endswith s ''.'' then s else s @ ''.'')"

text \<open>The loop \<open>for i, sentence in enumerate(relevant_sentences[:5])\<close>, threading
  \<open>answer\<close>.\<close>

fun build_answer :: "nat \<Rightarrow> string \<Rightarrow> string list \<Rightarrow> string" where
  "build_answer i answer [] = answer"
| "build_answer i answer (sentence # rest) =
     build_answer (Suc i)
       ((if 0 < i then answer @ '' '' else answer) @ clean_sentence sentence) rest"

text \<open>
  \<open>generate_answer(query, contexts)\<close>.  The body runs inside \<open>try\<close>; on lists of
  strings none of its operations raises (\<open>contexts[0]\<close> is read only when \<open>contexts\<close>
  is non-empty), so the \<open>except\<close> branch is never taken and the result is always the
  string returned by the \<open>try\<close> block.
\<close>

definition generate_answer :: "string \<Rightarrow> string list \<Rightarrow> string" where
  "generate_answer query contexts =
     (case contexts of
        [] \<Rightarrow> insufficient_information
      | first # _ \<Rightarrow>
          (let relevant = scan_contexts (keywords_of query) [] contexts in
           if relevant \<noteq> []
           then build_answer 0 ''Based on the financial document, '' (take 5 relevant)
           else ''I found the following information in the document that might help answer your question: ''
                @ first))"


section \<open>Exceptions and slices\<close>

text \<open>The exceptions that can cross a function boundary; each carries its message,
  which is what \<open>str(e)\<close> prints.\<close>

datatype exn = ValueError string | ImportError string | IndexError string | LibraryError string

fun str_exn :: "exn \<Rightarrow> string" where
  "str_exn (ValueError m) = m"
| "str_exn (ImportError m) = m"
| "str_exn (IndexError m) = m"
| "str_exn (LibraryError m) = m"

text \<open>A slice bound as Python clamps it: a negative bound counts from the end, and
  every bound is cut to \<open>0..len\<close>.\<close>

definition norm_index :: "nat \<Rightarrow> int \<Rightarrow> nat" where
  "norm_index n i = (if i < 0 then nat (max 0 (int n + i)) else min n (nat i))"

text \<open>\<open>s[i:j]\<close>\<close>

definition slice :: "'a list \<Rightarrow> int \<Rightarrow> int \<Rightarrow> 'a list" where
  "slice s i j =
     (let a = norm_index (length s) i; b = norm_index (length s) j
      in take (b - a) (drop a s))"

text \<open>\<open>s[:k]\<close>\<close>

definition slice_to :: "'a list \<Rightarrow> int \<Rightarrow> 'a list" where
  "slice_to s k = take (norm_index (length s) k) s"

text \<open>\<open>sub\<close> occurs in \<open>s\<close> at index \<open>i\<close>.\<close>

definition occurs_at :: "string \<Rightarrow> string \<Rightarrow> nat \<Rightarrow> bool" where
  "occurs_at s sub i = (i + length sub \<le> length s \<and> take (length sub) (drop i s) = sub)"

text \<open>\<open>s.rfind(sub, start, end)\<close>: the highest index at which \<open>sub\<close> occurs inside
  \<open>s[start:end]\<close>, or \<open>-1\<close>.\<close>

definition rfind :: "string \<Rightarrow> string \<Rightarrow> int \<Rightarrow> int \<Rightarrow> int" where
  "rfind s sub start end =
     (let a = norm_index (length s) start; b = norm_index (length s) end;
          hits = filter (occurs_at s sub) [a ..< Suc b - length sub]
      in if hits = [] then - 1 else int (last hits))"

text \<open>\<open>str(n)\<close> for a non-negative integer.\<close>

fun str_of_nat_fuel :: "nat \<Rightarrow> nat \<Rightarrow> string" where
  "str_of_nat_fuel 0 n = [char_of (48 + n mod 10)]"
| "str_of_nat_fuel (Suc k) n =
     (if n < 10 then [char_of (48 + n)]
      else str_of_nat_fuel k (n div 10) @ [char_of (48 + n mod 10)])"

definition str_of_nat :: "nat \<Rightarrow> string" where
  "str_of_nat n = str_of_nat_fuel n n"


section \<open>Floating-point numbers\<close>

text \<open>
  A Python or numpy float: not-a-number, an infinity, or a finite number, kept as the
  real number it denotes.  Positive and negative zero are the one number 0 (they
  compare equal).  The comparisons are those of IEEE 754: every comparison with a
  not-a-number is false, \<open>==\<close> included.
\<close>

datatype pyfloat = NaN | NegInf | Num real | PosInf

text \<open>\<open>x < y\<close>\<close>

fun float_lt :: "pyfloat \<Rightarrow> pyfloat \<Rightarrow> bool" where
  "float_lt NaN y = False"
| "float_lt x NaN = False"
| "float_lt NegInf NegInf = False"
| "float_lt NegInf y = True"
| "float_lt (Num a) NegInf = False"
| "float_lt (Num a) (Num b) = (a < b)"
| "float_lt (Num a) PosInf = True"
| "float_lt PosInf y = False"

text \<open>\<open>x == y\<close>\<close>

definition float_eq :: "pyfloat \<Rightarrow> pyfloat \<Rightarrow> bool" where
  "float_eq x y = (x \<noteq> NaN \<and> y \<noteq> NaN \<and> x = y)"

text \<open>\<open>x >= y\<close>\<close>

definition float_ge :: "pyfloat \<Rightarrow> pyfloat \<Rightarrow> bool" where
  "float_ge x y = (float_lt y x \<or> float_eq x y)"

text \<open>\<open>x <= y\<close>\<close>

definition float_le :: "pyfloat \<Rightarrow> pyfloat \<Rightarrow> bool" where
  "float_le x y = (float_lt x y \<or> float_eq x y)"


section \<open>utils/embeddings.py\<close>

text \<open>
  The numpy operations \<open>cosine_similarity\<close> calls, on vectors of a type left open:
  \<open>np.all(v == 0)\<close>, \<open>np.dot\<close>, \<open>np.linalg.norm\<close>, and the product and quotient of two
  floats (rounded, with the IEEE results for infinities, not-a-number and a zero
  divisor; numpy floats do not raise on division by zero).
\<close>

record 'v numpy =
  np_all_zero :: "'v \<Rightarrow> bool"
  np_dot :: "'v \<Rightarrow> 'v \<Rightarrow> pyfloat"
  np_norm :: "'v \<Rightarrow> pyfloat"
  float_mul :: "pyfloat \<Rightarrow> pyfloat \<Rightarrow> pyfloat"
  float_div :: "pyfloat \<Rightarrow> pyfloat \<Rightarrow> pyfloat"

definition cosine_similarity :: "'v numpy \<Rightarrow> 'v \<Rightarrow> 'v \<Rightarrow> pyfloat" where
  "cosine_similarity np v1 v2 =
     (if np_all_zero np v1 \<or> np_all_zero np v2 then Num 0
      else (let dot_product = np_dot np v1 v2;
                norm_v1 = np_norm np v1;
                norm_v2 = np_norm np v2
            in if float_eq norm_v1 (Num 0) \<or> float_eq norm_v2 (Num 0) then Num 0
               else float_div np dot_product (float_mul np norm_v1 norm_v2)))"

text \<open>The bound the specification states for the result: \<open>-1 <= x <= 1\<close>.\<close>

definition within_unit :: "pyfloat \<Rightarrow> bool" where
  "within_unit x = (float_le (Num (- 1)) x \<and> float_le x (Num 1))"

subsection \<open>An instance of the numpy operations\<close>

text \<open>
  Float arithmetic with the rounding left out: exact on finite numbers, and the IEEE
  754 results where an infinity or a not-a-number is involved.  Wherever the exact
  result of every step is a float (as with small integers, or with an infinity), this
  is what numpy computes.
\<close>

fun exact_add :: "pyfloat \<Rightarrow> pyfloat \<Rightarrow> pyfloat" where
  "exact_add NaN y = NaN"
| "exact_add x NaN = NaN"
| "exact_add (Num a) (Num b) = Num (a + b)"
| "exact_add PosInf NegInf = NaN"
| "exact_add NegInf PosInf = NaN"
| "exact_add PosInf y = PosInf"
| "exact_add NegInf y = NegInf"
| "exact_add (Num a) y = y"

text \<open>An infinity times a finite number or an infinity of the given sign.\<close>

definition signed_inf :: "bool \<Rightarrow> pyfloat" where
  "signed_inf positive = (if positive then PosInf else NegInf)"

fun exact_mul :: "pyfloat \<Rightarrow> pyfloat \<Rightarrow> pyfloat" where
  "exact_mul NaN y = NaN"
| "exact_mul x NaN = NaN"
| "exact_mul (Num a) (Num b) = Num (a * b)"
| "exact_mul (Num a) PosInf = (if a = 0 then NaN else signed_inf (0 < a))"
| "exact_mul (Num a) NegInf = (if a = 0 then NaN else signed_inf (a < 0))"
| "exact_mul PosInf (Num b) = (if b = 0 then NaN else signed_inf (0 < b))"
| "exact_mul NegInf (Num b) = (if b = 0 then NaN else signed_inf (b < 0))"
| "exact_mul PosInf PosInf = PosInf"
| "exact_mul NegInf NegInf = PosInf"
| "exact_mul PosInf NegInf = NegInf"
| "exact_mul NegInf PosInf = NegInf"

fun exact_div :: "pyfloat \<Rightarrow> pyfloat \<Rightarrow> pyfloat" where
  "exact_div NaN y = NaN"
| "exact_div x NaN = NaN"
| "exact_div (Num a) (Num b) =
     (if b = 0 then (if a = 0 then NaN else signed_inf (0 < a)) else Num (a / b))"
| "exact_div (Num a) y = Num 0"
| "exact_div PosInf (Num b) = signed_inf (0 \<le> b)"
| "exact_div NegInf (Num b) = signed_inf (b < 0)"
| "exact_div x y = NaN"

fun exact_sqrt :: "pyfloat \<Rightarrow> pyfloat" where
  "exact_sqrt (Num a) = (if a < 0 then NaN else Num (sqrt a))"
| "exact_sqrt PosInf = PosInf"
| "exact_sqrt x = NaN"

text \<open>The sum of the products of the components.\<close>

fun exact_dot :: "pyfloat list \<Rightarrow> pyfloat list \<Rightarrow> pyfloat" where
  "exact_dot (x # xs) (y # ys) = exact_add (exact_mul x y) (exact_dot xs ys)"
| "exact_dot xs ys = Num 0"

definition exact_numpy :: "(pyfloat list) numpy" where
  "exact_numpy =
     \<lparr>np_all_zero = list_all (\<lambda>x. float_eq x (Num 0)),
      np_dot = exact_dot,
      np_norm = (\<lambda>v. exact_sqrt (exact_dot v v)),
      float_mul = exact_mul,
      float_div = exact_div\<rparr>"


section \<open>utils/retriever.py\<close>

text \<open>
  The embedding model is a parameter, \<open>embed_query\<close>, which maps the query to a vector;
  so is the function that scores a row against it, \<open>similarity\<close>, which the source
  fixes to \<open>cosine_similarity\<close> above with numpy's operations.  A score is a float and
  may be a not-a-number.
\<close>

text \<open>\<open>similarities = [(i, cosine_similarity(query_embedding, e)) for i, e in
  enumerate(embeddings)]\<close>\<close>

definition similarities :: "('v \<Rightarrow> 'v \<Rightarrow> pyfloat) \<Rightarrow> 'v \<Rightarrow> 'v list \<Rightarrow> (nat \<times> pyfloat) list" where
  "similarities similarity query_embedding embeddings =
     map (\<lambda>(i, doc_embedding). (i, similarity query_embedding doc_embedding))
       (enumerate 0 embeddings)"

subsection \<open>\<open>list.sort(key=lambda x: x[1], reverse=True)\<close>\<close>

text \<open>
  CPython's \<open>list.sort\<close> compares keys with \<open><\<close> only.  With \<open>reverse=True\<close> it reverses
  the list, sorts it into ascending order with a stable sort, and reverses the result.
  The sort finds the run the list starts with (non-descending, or strictly descending
  and then reversed) and inserts every further element into it by binary search; a
  list of 64 elements or more is cut into several such runs, which are then merged.
  The functions below are the sort of one run, with the run detection of CPython 3.11.
  On keys that \<open>a < b\<close> orders totally every stable sort gives the same list, so they
  give the result of \<open>list.sort\<close> for every list without a not-a-number key, and for
  every list of fewer than 64 elements.
\<close>

text \<open>\<open>a < b\<close> on the keys of two entries.\<close>

definition key_lt :: "nat \<times> pyfloat \<Rightarrow> nat \<times> pyfloat \<Rightarrow> bool" where
  "key_lt p q = float_lt (snd p) (snd q)"

text \<open>How many of the next elements go on a non-descending run that ends in
  \<open>prev\<close>.\<close>

fun run_ascending :: "nat \<times> pyfloat \<Rightarrow> (nat \<times> pyfloat) list \<Rightarrow> nat" where
  "run_ascending prev [] = 0"
| "run_ascending prev (x # xs) = (if key_lt x prev then 0 else Suc (run_ascending x xs))"

text \<open>The same for a strictly descending run.\<close>

fun run_descending :: "nat \<times> pyfloat \<Rightarrow> (nat \<times> pyfloat) list \<Rightarrow> nat" where
  "run_descending prev [] = 0"
| "run_descending prev (x # xs) = (if key_lt x prev then Suc (run_descending x xs) else 0)"

text \<open>\<open>count_run\<close>: the length of the run the list starts with, and whether it is
  descending.\<close>

fun count_run :: "(nat \<times> pyfloat) list \<Rightarrow> nat \<times> bool" where
  "count_run [] = (0, False)"
| "count_run [x] = (1, False)"
| "count_run (x # y # ys) =
     (if key_lt y x then (2 + run_descending y ys, True)
      else (2 + run_ascending y ys, False))"

text \<open>The binary search of \<open>binarysort\<close>: where \<open>pivot\<close> goes in \<open>a[l:r]\<close>.\<close>

function bisect :: "nat \<times> pyfloat \<Rightarrow> (nat \<times> pyfloat) list \<Rightarrow> nat \<Rightarrow> nat \<Rightarrow> nat" where
  "bisect pivot a l r =
     (if l < r
      then (if key_lt pivot (a ! (l + (r - l) div 2))
            then bisect pivot a l (l + (r - l) div 2)
            else bisect pivot a (l + (r - l) div 2 + 1) r)
      else l)"
  by pat_completeness auto
termination
  by (relation "measure (\<lambda>(pivot, a, l, r). r - l)") auto

definition insert_at :: "nat \<Rightarrow> 'a \<Rightarrow> 'a list \<Rightarrow> 'a list" where
  "insert_at k x a = take k a @ x # drop k a"

text \<open>\<open>binarysort\<close>: \<open>run\<close> is the sorted part, the second list what is still to
  insert.\<close>

fun binarysort :: "(nat \<times> pyfloat) list \<Rightarrow> (nat \<times> pyfloat) list \<Rightarrow> (nat \<times> pyfloat) list" where
  "binarysort run [] = run"
| "binarysort run (pivot # rest) =
     binarysort (insert_at (bisect pivot run 0 (length run)) pivot run) rest"

definition forward_sort :: "(nat \<times> pyfloat) list \<Rightarrow> (nat \<times> pyfloat) list" where
  "forward_sort xs =
     (case count_run xs of
        (n, descending) \<Rightarrow>
          binarysort (if descending then rev (take n xs) else take n xs) (drop n xs))"

definition sort_by_score_desc :: "(nat \<times> pyfloat) list \<Rightarrow> (nat \<times> pyfloat) list" where
  "sort_by_score_desc xs = rev (forward_sort (rev xs))"

subsection \<open>\<open>retrieve_context\<close>\<close>

text \<open>\<open>top_similarities\<close>: sorted, filtered by \<open>score >= similarity_threshold\<close>, cut to
  \<open>top_k\<close>.  The threshold is the float the comparison sees: numpy may first convert
  a Python float to the precision of the score.\<close>

definition top_similarities ::
  "('v \<Rightarrow> 'v \<Rightarrow> pyfloat) \<Rightarrow> 'v \<Rightarrow> 'v list \<Rightarrow> int \<Rightarrow> pyfloat \<Rightarrow> (nat \<times> pyfloat) list" where
  "top_similarities similarity query_embedding embeddings top_k similarity_threshold =
     slice_to
       (filter (\<lambda>(i, score). float_ge score similarity_threshold)
          (sort_by_score_desc (similarities similarity query_embedding embeddings)))
       top_k"

text \<open>
  \<open>retrieve_context(query, documents, embeddings, top_k, similarity_threshold)\<close>.
  \<open>embeddings\<close> is \<open>None\<close> or the list of the rows of the array.  \<open>documents[i]\<close>
  raises \<open>IndexError\<close> when the array has more rows than there are documents and
  such a row is selected.
\<close>

definition retrieve_context ::
  "(string \<Rightarrow> 'v) \<Rightarrow> ('v \<Rightarrow> 'v \<Rightarrow> pyfloat) \<Rightarrow> string \<Rightarrow> string list \<Rightarrow> 'v list option
     \<Rightarrow> int \<Rightarrow> pyfloat \<Rightarrow> exn + (string list \<times> nat list)" where
  "retrieve_context embed_query similarity query documents embeddings top_k
       similarity_threshold =
     (case embeddings of
        None \<Rightarrow> Inr ([], [])
      | Some rows \<Rightarrow>
          if documents = [] then Inr ([], [])
          else
            (let context_indices =
                   map fst (top_similarities similarity (embed_query query) rows
                              top_k similarity_threshold)
             in if list_all (\<lambda>i. i < length documents) context_indices
                then Inr (map (nth documents) context_indices, context_indices)
                else Inl (IndexError ''list index out of range'')))"

text \<open>\<open>rerank_contexts\<close> returns its arguments.\<close>

definition rerank_contexts ::
  "string \<Rightarrow> string list \<Rightarrow> nat list \<Rightarrow> string list \<times> nat list" where
  "rerank_contexts query contexts context_indices = (contexts, context_indices)"

text \<open>Ranking order on indices under a score: a higher score first, and among equal
  scores the lower index first.\<close>

definition score_before :: "(nat \<Rightarrow> pyfloat) \<Rightarrow> nat \<Rightarrow> nat \<Rightarrow> bool" where
  "score_before score i j = (float_lt (score j) (score i) \<or> (score i = score j \<and> i < j))"

text \<open>The same order on (index, score) pairs.\<close>

definition ranked :: "(nat \<times> pyfloat) \<Rightarrow> (nat \<times> pyfloat) \<Rightarrow> bool" where
  "ranked p q = (key_lt q p \<or> (snd p = snd q \<and> fst p < fst q))"

text \<open>An embedding model that maps every query to the first unit vector of the
  plane, to run the code on.\<close>

definition unit_query :: "string \<Rightarrow> pyfloat list" where
  "unit_query query = [Num 1, Num 0]"


section \<open>utils/document_processor.py\<close>

subsection \<open>The libraries\<close>

text \<open>
  A table as pandas holds it after \<open>fillna('')\<close>: the columns in order, each with its
  name and \<open>str(dtype)\<close>, and the rows in order.  What a row holds is left open.
\<close>

record 'r dataframe =
  df_columns :: "(string \<times> string) list"
  df_rows :: "'r list"

text \<open>
  What the PDF and pandas libraries answer for a path: the text of all pages (each
  followed by a blank line) or the exception the extraction ends with; the table of
  a CSV file; the sheets of a workbook in order, each with its name and the outcome of
  reading it; and the CSV text \<open>to_csv(index=False)\<close> writes for a table.
\<close>

record 'r libraries =
  extract_text :: "string \<Rightarrow> exn + string"
  read_csv :: "string \<Rightarrow> exn + 'r dataframe"
  read_excel :: "string \<Rightarrow> exn + (string \<times> (exn + 'r dataframe)) list"
  to_csv :: "'r dataframe \<Rightarrow> string"

text \<open>Libraries that find no file at all.\<close>

definition no_files :: "unit libraries" where
  "no_files =
     \<lparr>extract_text = (\<lambda>path. Inl (LibraryError ''No such file or directory'')),
      read_csv = (\<lambda>path. Inl (LibraryError ''No such file or directory'')),
      read_excel = (\<lambda>path. Inl (LibraryError ''No such file or directory'')),
      to_csv = (\<lambda>df. [])\<rparr>"

text \<open>
  \<open>os.path.splitext\<close> on POSIX: the extension starts at the last dot of the last path
  component, unless that component has only dots before it.
\<close>

definition splitext :: "string \<Rightarrow> string \<times> string" where
  "splitext p =
     (let sepIndex = rfind p ''/'' 0 (int (length p));
          dotIndex = rfind p ''.'' 0 (int (length p))
      in if sepIndex < dotIndex
            \<and> list_ex (\<lambda>k. p ! k \<noteq> CHR ''.'') [nat (sepIndex + 1) ..< nat dotIndex]
         then (take (nat dotIndex) p, drop (nat dotIndex) p)
         else (p, []))"

subsection \<open>\<open>clean_text\<close>\<close>

text \<open>\<open>re.sub\<close> of every maximal run of at least \<open>m\<close> characters \<open>c\<close> by \<open>k\<close> of
  them; \<open>run\<close> counts the characters \<open>c\<close> just read.\<close>

definition flush_run :: "char \<Rightarrow> nat \<Rightarrow> nat \<Rightarrow> nat \<Rightarrow> string" where
  "flush_run c m k run = (if m \<le> run then replicate k c else replicate run c)"

fun squeeze_runs :: "char \<Rightarrow> nat \<Rightarrow> nat \<Rightarrow> nat \<Rightarrow> string \<Rightarrow> string" where
  "squeeze_runs c m k run [] = flush_run c m k run"
| "squeeze_runs c m k run (x # xs) =
     (if x = c then squeeze_runs c m k (Suc run) xs
      else flush_run c m k run @ x # squeeze_runs c m k 0 xs)"

text \<open>\<open>re.sub(r'\s+([.,;:!?)])', r'\1', text)\<close>: a run of white space right before one
  of these marks goes; \<open>pending\<close> is the run just read, reversed.\<close>

definition closing_mark :: "char \<Rightarrow> bool" where
  "closing_mark c = (c \<in> set ''.,;:!?)'')"

fun drop_space_before :: "string \<Rightarrow> string \<Rightarrow> string" where
  "drop_space_before pending [] = rev pending"
| "drop_space_before pending (x # xs) =
     (if is_space x then drop_space_before (x # pending) xs
      else if closing_mark x then x # drop_space_before [] xs
      else rev pending @ x # drop_space_before [] xs)"

text \<open>\<open>re.sub(r'([({])\s+', r'\1', text)\<close>: a run of white space right after an opening
  bracket goes; \<open>opened\<close> says the last character kept was one.\<close>

fun drop_space_after :: "bool \<Rightarrow> string \<Rightarrow> string" where
  "drop_space_after opened [] = []"
| "drop_space_after opened (x # xs) =
     (if opened \<and> is_space x then drop_space_after True xs
      else x # drop_space_after (x = CHR ''('' \<or> x = CHR ''{'') xs)"

definition clean_text :: "string \<Rightarrow> string" where
  "clean_text text =
     strip (drop_space_after False (drop_space_before []
       (squeeze_runs CHR '' '' 2 1 0 (squeeze_runs CHR ''\<newline>'' 3 2 0 text))))"

subsection \<open>\<open>process_pdf\<close>: the sliding window\<close>

text \<open>
  \<open>boundary > current_pos + chunk_size / 2\<close>.  The source divides in floating point;
  twice both sides the comparison is one of integers, and the two agree as long as the
  numbers are below \<open>2^53\<close>.
\<close>

definition past_half :: "int \<Rightarrow> nat \<Rightarrow> int \<Rightarrow> bool" where
  "past_half boundary current_pos chunk_size =
     (2 * int current_pos + chunk_size < 2 * boundary)"

text \<open>\<open>min(current_pos + chunk_size, len(extracted_text))\<close>\<close>

definition window_end :: "string \<Rightarrow> nat \<Rightarrow> int \<Rightarrow> int" where
  "window_end text current_pos chunk_size =
     min (int current_pos + chunk_size) (int (length text))"

text \<open>The value of \<open>chunk_end\<close> when the chunk is cut.\<close>

definition find_chunk_end :: "string \<Rightarrow> nat \<Rightarrow> int \<Rightarrow> int" where
  "find_chunk_end text current_pos chunk_size =
     (let chunk_end = window_end text current_pos chunk_size in
      if chunk_end < int (length text)
      then (let paragraph_end = rfind text ''\<newline>\<newline>'' (int current_pos) chunk_end in
            if paragraph_end \<noteq> - 1 \<and> past_half paragraph_end current_pos chunk_size
            then paragraph_end + 2
            else (let sentence_end =
                        max (rfind text ''. '' (int current_pos) chunk_end)
                          (max (rfind text ''? '' (int current_pos) chunk_end)
                               (rfind text ''! '' (int current_pos) chunk_end))
                  in if sentence_end \<noteq> - 1 \<and> past_half sentence_end current_pos chunk_size
                     then sentence_end + 2
                     else chunk_end))
      else chunk_end)"

text \<open>\<open>extracted_text[current_pos:chunk_end].strip()\<close>\<close>

definition chunk_at :: "string \<Rightarrow> nat \<Rightarrow> int \<Rightarrow> string" where
  "chunk_at text current_pos chunk_size =
     strip (slice text (int current_pos) (find_chunk_end text current_pos chunk_size))"

text \<open>\<open>if chunk: chunks.append(chunk)\<close>\<close>

definition add_chunk :: "string list \<Rightarrow> string \<Rightarrow> string list" where
  "add_chunk chunks chunk = (if chunk \<noteq> [] then chunks @ [chunk] else chunks)"

text \<open>\<open>max(current_pos + chunk_size - overlap, current_pos + 1)\<close>\<close>

definition next_pos :: "nat \<Rightarrow> int \<Rightarrow> int \<Rightarrow> nat" where
  "next_pos current_pos chunk_size overlap =
     nat (max (int current_pos + chunk_size - overlap) (int current_pos + 1))"

text \<open>The \<open>while\<close> loop, with its \<open>break\<close>.\<close>

function chunk_loop :: "string \<Rightarrow> int \<Rightarrow> int \<Rightarrow> nat \<Rightarrow> string list \<Rightarrow> string list" where
  "chunk_loop text chunk_size overlap current_pos chunks =
     (if current_pos < length text
      then (if length text \<le> next_pos current_pos chunk_size overlap
            then add_chunk chunks (chunk_at text current_pos chunk_size)
            else chunk_loop text chunk_size overlap (next_pos current_pos chunk_size overlap)
                   (add_chunk chunks (chunk_at text current_pos chunk_size)))
      else chunks)"
  by pat_completeness auto
termination
  by (relation "measure (\<lambda>(text, chunk_size, overlap, current_pos, chunks).
                  length text - current_pos)")
     (auto simp: next_pos_def)

text \<open>The window starts the loop goes through, from \<open>current_pos\<close> on, for a text of
  \<open>n\<close> characters.\<close>

function window_starts :: "nat \<Rightarrow> int \<Rightarrow> int \<Rightarrow> nat \<Rightarrow> nat list" where
  "window_starts n chunk_size overlap current_pos =
     (if current_pos < n
      then current_pos # window_starts n chunk_size overlap (next_pos current_pos chunk_size overlap)
      else [])"
  by pat_completeness auto
termination
  by (relation "measure (\<lambda>(n, chunk_size, overlap, current_pos). n - current_pos)")
     (auto simp: next_pos_def)

definition split_chunks :: "string \<Rightarrow> int \<Rightarrow> int \<Rightarrow> string list" where
  "split_chunks text chunk_size overlap = chunk_loop text chunk_size overlap 0 []"

definition process_pdf :: "'r libraries \<Rightarrow> string \<Rightarrow> int \<Rightarrow> int \<Rightarrow> exn + string list" where
  "process_pdf lib file_path chunk_size overlap =
     (case extract_text lib file_path of
        Inl e \<Rightarrow> Inl e
      | Inr extracted_text \<Rightarrow> Inr (split_chunks (clean_text extracted_text) chunk_size overlap))"



subsection \<open>\<open>dataframe_to_chunks\<close>\<close>

text \<open>\<open>if sheet_name:\<close> holds for a name that is neither \<open>None\<close> nor empty.\<close>

definition given :: "string option \<Rightarrow> bool" where
  "given sheet_name = (case sheet_name of None \<Rightarrow> False | Some name \<Rightarrow> name \<noteq> [])"

definition name_of :: "string option \<Rightarrow> string" where
  "name_of sheet_name = (case sheet_name of None \<Rightarrow> [] | Some name \<Rightarrow> name)"

text \<open>\<open>datatype_info[col]\<close>: the dictionary keeps the last entry of a name.\<close>

definition datatype_info :: "'r dataframe \<Rightarrow> string \<Rightarrow> string" where
  "datatype_info df col =
     (case map_of (rev (df_columns df)) col of None \<Rightarrow> [] | Some dtype \<Rightarrow> dtype)"

text \<open>The schema chunk.\<close>

definition schema_info :: "'r dataframe \<Rightarrow> string option \<Rightarrow> string" where
  "schema_info df sheet_name =
     ''Schema Information:\<newline>''
     @ (if given sheet_name then ''Sheet: '' @ name_of sheet_name @ ''\<newline>'' else [])
     @ ''Total Rows: '' @ str_of_nat (length (df_rows df)) @ ''\<newline>''
     @ ''Columns:\<newline>''
     @ concat (map (\<lambda>col. ''- '' @ col @ '' ('' @ datatype_info df col @ '')\<newline>'')
                 (map fst (df_columns df)))"

text \<open>\<open>df.iloc[i:end_idx]\<close>, for \<open>0 \<le> i \<le> end_idx\<close>.\<close>

definition iloc :: "'r dataframe \<Rightarrow> nat \<Rightarrow> nat \<Rightarrow> 'r dataframe" where
  "iloc df i end_idx = df\<lparr>df_rows := take (end_idx - i) (drop i (df_rows df))\<rparr>"

text \<open>
  The pairs \<open>(i, end_idx)\<close> of the loop \<open>for i in range(0, total_rows, step)\<close> with
  \<open>end_idx = min(i + step, total_rows)\<close>, from \<open>i\<close> on.  A step of 0 never gets here
  (\<open>range\<close> raises), and a negative step gives an empty range.
\<close>

function row_ranges :: "nat \<Rightarrow> nat \<Rightarrow> nat \<Rightarrow> (nat \<times> nat) list" where
  "row_ranges total_rows step i =
     (if 0 < step \<and> i < total_rows
      then (i, min (i + step) total_rows) # row_ranges total_rows step (i + step)
      else [])"
  by pat_completeness auto
termination
  by (relation "measure (\<lambda>(total_rows, step, i). total_rows - i)") auto

text \<open>The text of one row-group chunk.\<close>

definition row_chunk ::
  "('r dataframe \<Rightarrow> string) \<Rightarrow> 'r dataframe \<Rightarrow> string option \<Rightarrow> nat \<times> nat \<Rightarrow> string" where
  "row_chunk write_csv df sheet_name bounds =
     (case bounds of (i, end_idx) \<Rightarrow>
        ''Data Rows '' @ str_of_nat (i + 1) @ '' to '' @ str_of_nat end_idx
        @ (if given sheet_name then '' (Sheet: '' @ name_of sheet_name @ '')'' else [])
        @ '':\<newline>'' @ write_csv (iloc df i end_idx))"

definition dataframe_to_chunks ::
  "('r dataframe \<Rightarrow> string) \<Rightarrow> 'r dataframe \<Rightarrow> int \<Rightarrow> string option \<Rightarrow> exn + string list" where
  "dataframe_to_chunks write_csv df max_rows_per_chunk sheet_name =
     (if max_rows_per_chunk = 0 then Inl (ValueError ''range() arg 3 must not be zero'')
      else Inr (schema_info df sheet_name
                # map (row_chunk write_csv df sheet_name)
                    (row_ranges (length (df_rows df)) (nat max_rows_per_chunk) 0)))"

subsection \<open>\<open>process_csv\<close>, \<open>process_excel\<close>, \<open>process_document\<close>\<close>

text \<open>
  The functions below print; their result is the list of printed lines together with
  the value returned.  \<open>process_csv\<close> and \<open>process_excel\<close> catch every exception and
  return the empty list.
\<close>

definition process_csv :: "'r libraries \<Rightarrow> string \<Rightarrow> int \<Rightarrow> string list \<times> string list" where
  "process_csv lib file_path max_rows_per_chunk =
     (case read_csv lib file_path of
        Inl e \<Rightarrow> ([''Error processing CSV: '' @ str_exn e], [])
      | Inr df \<Rightarrow>
          (case dataframe_to_chunks (to_csv lib) df max_rows_per_chunk None of
             Inl e \<Rightarrow> ([''Error processing CSV: '' @ str_exn e], [])
           | Inr chunks \<Rightarrow> ([], chunks)))"

text \<open>The loop over the sheets: it stops at the first exception.\<close>

fun sheet_chunks ::
  "('r dataframe \<Rightarrow> string) \<Rightarrow> int \<Rightarrow> (string \<times> (exn + 'r dataframe)) list \<Rightarrow> exn + string list" where
  "sheet_chunks write_csv max_rows_per_chunk [] = Inr []"
| "sheet_chunks write_csv max_rows_per_chunk ((sheet_name, read) # rest) =
     (case read of
        Inl e \<Rightarrow> Inl e
      | Inr df \<Rightarrow>
          (case dataframe_to_chunks write_csv df max_rows_per_chunk (Some sheet_name) of
             Inl e \<Rightarrow> Inl e
           | Inr chunks \<Rightarrow>
               (case sheet_chunks write_csv max_rows_per_chunk rest of
                  Inl e \<Rightarrow> Inl e
                | Inr others \<Rightarrow> Inr (chunks @ others))))"

definition process_excel :: "'r libraries \<Rightarrow> string \<Rightarrow> int \<Rightarrow> string list \<times> string list" where
  "process_excel lib file_path max_rows_per_chunk =
     (case read_excel lib file_path of
        Inl e \<Rightarrow> ([''Error processing Excel: '' @ str_exn e], [])
      | Inr sheets \<Rightarrow>
          (case sheet_chunks (to_csv lib) max_rows_per_chunk sheets of
             Inl e \<Rightarrow> ([''Error processing Excel: '' @ str_exn e], [])
           | Inr chunks \<Rightarrow> ([], chunks)))"

text \<open>\<open>file_extension = os.path.splitext(file_path)[1].lower()\<close>\<close>

definition file_extension :: "string \<Rightarrow> string" where
  "file_extension file_path = lower (snd (splitext file_path))"

text \<open>The \<open>try\<close> block of \<open>process_document\<close>: what it prints, and the list it returns
  or the exception it raises.\<close>

definition process_document_try ::
  "'r libraries \<Rightarrow> string \<Rightarrow> string list \<times> (exn + string list)" where
  "process_document_try lib file_path =
     (if file_extension file_path = ''.pdf''
      then ([], process_pdf lib file_path 1000 200)
      else if file_extension file_path = ''.csv''
      then (case process_csv lib file_path 50 of (printed, chunks) \<Rightarrow> (printed, Inr chunks))
      else if file_extension file_path \<in> set [''.xlsx'', ''.xls'']
      then (case process_excel lib file_path 50 of (printed, chunks) \<Rightarrow> (printed, Inr chunks))
      else ([], Inl (ValueError (''Unsupported file extension: '' @ file_extension file_path))))"

text \<open>
  \<open>process_document(file_path)\<close>: the \<open>try\<close> block under \<open>except Exception\<close>, which
  prints the message and returns the empty list.  The result is kept as a sum so that
  a raised exception would show as \<open>Inl\<close>.
\<close>

definition process_document ::
  "'r libraries \<Rightarrow> string \<Rightarrow> string list \<times> (exn + string list)" where
  "process_document lib file_path =
     (case process_document_try lib file_path of
        (printed, Inr chunks) \<Rightarrow> (printed, Inr chunks)
      | (printed, Inl e) \<Rightarrow> (printed @ [''Error processing document: '' @ str_exn e], Inr []))"

text \<open>The extensions the ingest boundary accepts.\<close>

definition supported_extension :: "string \<Rightarrow> bool" where
  "supported_extension ext = (ext \<in> set [''.pdf'', ''.csv'', ''.xlsx'', ''.xls''])"

text \<open>What the specification says of a file with another extension: the call fails
  with the unsupported-format error instead of returning a list.\<close>

definition fails_unsupported :: "string list \<times> (exn + string list) \<Rightarrow> bool" where
  "fails_unsupported result = (case snd result of Inl (ValueError m) \<Rightarrow> True | _ \<Rightarrow> False)"


subsection \<open>An example table\<close>

text \<open>A table of three rows, and a writer of its CSV text, to run the code on.\<close>

definition revenue_table :: "(nat \<times> nat) dataframe" where
  "revenue_table =
     \<lparr>df_columns = [(''revenue'', ''int64''), (''year'', ''int64'')],
      df_rows = [(100, 2021), (150, 2022), (200, 2023)]\<rparr>"

definition write_pairs :: "(nat \<times> nat) dataframe \<Rightarrow> string" where
  "write_pairs df =
     join '','' (map fst (df_columns df)) @ ''\<newline>''
     @ concat (map (\<lambda>(a, b). str_of_nat a @ '','' @ str_of_nat b @ ''\<newline>'') (df_rows df))"


section \<open>Specification-level notions for the answer composer\<close>







section \<open>Properties of the answer composer\<close>

text \<open>
  Claim C10.  With an empty context list \<open>generate_answer\<close> returns the fixed
  insufficient-information message, whatever the query; the model is a total function,
  so no exception is raised.
\<close>

theorem generate_answer_empty_contexts:
  "generate_answer query [] =
     ''I don't have sufficient information in the document to answer this question.''"
  by (simp add: generate_answer_def insufficient_information_def)


















section \<open>Properties of floats and of the sort\<close>

declare bisect.simps [simp del]

lemma float_lt_irrefl: "\<not> float_lt x x"
  by (cases x) auto

lemma float_lt_trans: "float_lt x y \<Longrightarrow> float_lt y z \<Longrightarrow> float_lt x z"
  by (cases x; cases y; cases z) auto

lemma float_lt_asym: "float_lt x y \<Longrightarrow> \<not> float_lt y x"
  by (cases x; cases y) auto

lemma float_lt_total: "x \<noteq> NaN \<Longrightarrow> y \<noteq> NaN \<Longrightarrow> float_lt x y \<or> x = y \<or> float_lt y x"
  by (cases x; cases y) auto

lemma float_lt_not_nan: "float_lt x y \<Longrightarrow> x \<noteq> NaN \<and> y \<noteq> NaN"
  by (cases x; cases y) auto

lemma float_ge_not_nan: "float_ge x y \<Longrightarrow> x \<noteq> NaN \<and> y \<noteq> NaN"
  by (auto simp: float_ge_def float_eq_def dest: float_lt_not_nan)

lemma float_ge_iff: "x \<noteq> NaN \<Longrightarrow> y \<noteq> NaN \<Longrightarrow> float_ge x y \<longleftrightarrow> \<not> float_lt x y"
  using float_lt_total [of x y] float_lt_asym [of x y] float_lt_irrefl [of x]
  by (auto simp: float_ge_def float_eq_def)

lemma float_ge_trans: "float_ge x y \<Longrightarrow> float_ge y z \<Longrightarrow> float_ge x z"
  by (auto simp: float_ge_def float_eq_def intro: float_lt_trans)

lemma ranked_trans: "ranked p q \<Longrightarrow> ranked q r \<Longrightarrow> ranked p r"
  by (auto simp: ranked_def key_lt_def intro: float_lt_trans)

lemma ranked_from_not_lt:
  assumes "snd p \<noteq> NaN" "snd q \<noteq> NaN" "\<not> key_lt q p" "fst q < fst p"
  shows "ranked q p"
  using assms float_lt_total [of "snd p" "snd q"] by (auto simp: ranked_def key_lt_def)

lemma key_lt_below:
  assumes "key_lt p x" "\<not> key_lt y x" "snd y \<noteq> NaN"
  shows "key_lt p y"
proof -
  from assms(1) have "snd x \<noteq> NaN" by (auto simp: key_lt_def dest: float_lt_not_nan)
  with assms(2,3) float_lt_total [of "snd x" "snd y"]
  have "float_lt (snd x) (snd y) \<or> snd x = snd y" by (auto simp: key_lt_def)
  with assms(1) show ?thesis by (auto simp: key_lt_def intro: float_lt_trans)
qed

lemma not_key_lt_above:
  assumes "\<not> key_lt p x" "\<not> key_lt x y" "snd p \<noteq> NaN" "snd x \<noteq> NaN" "snd y \<noteq> NaN"
  shows "\<not> key_lt p y"
proof
  assume "key_lt p y"
  from key_lt_below [OF this assms(2,4)] assms(1) show False by simp
qed

subsection \<open>The sort keeps the elements\<close>

lemma set_insert_at: "set (insert_at k x a) = insert x (set a)"
proof -
  have "set (take k a) \<union> set (drop k a) = set a"
    by (metis append_take_drop_id set_append)
  then show ?thesis by (auto simp: insert_at_def)
qed

lemma set_binarysort: "set (binarysort run rest) = set run \<union> set rest"
  by (induction rest arbitrary: run) (auto simp: set_insert_at)

lemma set_forward_sort: "set (forward_sort xs) = set xs"
proof -
  obtain n d where c: "count_run xs = (n, d)" by (cases "count_run xs")
  have "set (take n xs) \<union> set (drop n xs) = set xs"
    by (metis append_take_drop_id set_append)
  with c show ?thesis by (auto simp: forward_sort_def set_binarysort)
qed

lemma set_sort_by_score_desc: "set (sort_by_score_desc xs) = set xs"
  by (simp add: sort_by_score_desc_def set_forward_sort)

subsection \<open>Without a not-a-number the sort orders the list\<close>

lemma run_ascending_sorted:
  assumes "\<forall>p\<in>set (prev # xs). snd p \<noteq> NaN"
    and "sorted_wrt (\<lambda>p q. fst q < fst p) (prev # xs)"
  shows "sorted_wrt (\<lambda>p q. ranked q p) (prev # take (run_ascending prev xs) xs)"
  using assms
proof (induction xs arbitrary: prev)
  case Nil
  then show ?case by simp
next
  case (Cons x xs)
  show ?case
  proof (cases "key_lt x prev")
    case True
    then show ?thesis by simp
  next
    case False
    from Cons.prems have ih: "sorted_wrt (\<lambda>p q. ranked q p) (x # take (run_ascending x xs) xs)"
      by (intro Cons.IH) auto
    from Cons.prems False have first: "ranked x prev"
      by (intro ranked_from_not_lt) auto
    have "ranked y prev" if "y \<in> set (take (run_ascending x xs) xs)" for y
    proof -
      from ih that have "ranked y x" by simp
      then show ?thesis using first by (rule ranked_trans)
    qed
    with ih first False show ?thesis by simp
  qed
qed

lemma run_descending_sorted:
  "sorted_wrt (\<lambda>p q. key_lt q p) (prev # take (run_descending prev xs) xs)"
proof (induction xs arbitrary: prev)
  case Nil
  then show ?case by simp
next
  case (Cons x xs)
  show ?case
  proof (cases "key_lt x prev")
    case False
    then show ?thesis by simp
  next
    case True
    have "key_lt y prev" if "y \<in> set (take (run_descending x xs) xs)" for y
    proof -
      from Cons.IH [of x] that have "key_lt y x" by simp
      with True show ?thesis by (auto simp: key_lt_def intro: float_lt_trans)
    qed
    with Cons.IH [of x] True show ?thesis by simp
  qed
qed

lemma count_run_Cons:
  "count_run (x # rest) =
     (if rest \<noteq> [] \<and> key_lt (hd rest) x then (Suc (run_descending x rest), True)
      else (Suc (run_ascending x rest), False))"
  by (cases rest) auto

lemma first_run_sorted:
  assumes "\<forall>p\<in>set xs. snd p \<noteq> NaN" and "sorted_wrt (\<lambda>p q. fst q < fst p) xs"
    and "count_run xs = (n, d)"
  shows "sorted_wrt (\<lambda>p q. ranked q p) (if d then rev (take n xs) else take n xs)"
proof (cases xs)
  case Nil
  then show ?thesis by simp
next
  case (Cons x rest)
  show ?thesis
  proof (cases "rest \<noteq> [] \<and> key_lt (hd rest) x")
    case True
    with assms(3) Cons have n: "n = Suc (run_descending x rest)" and d: "d"
      by (simp_all add: count_run_Cons)
    have "sorted_wrt (\<lambda>p q. key_lt q p) (x # take (run_descending x rest) rest)"
      by (rule run_descending_sorted)
    then have "sorted_wrt (\<lambda>p q. ranked p q) (x # take (run_descending x rest) rest)"
      by (rule sorted_wrt_mono_rel [rotated]) (simp add: ranked_def)
    then have "sorted_wrt (\<lambda>p q. ranked q p) (rev (x # take (run_descending x rest) rest))"
      by (simp only: sorted_wrt_rev)
    with n d Cons show ?thesis by simp
  next
    case False
    with assms(3) Cons have n: "n = Suc (run_ascending x rest)" and d: "\<not> d"
      by (simp_all add: count_run_Cons)
    have "sorted_wrt (\<lambda>p q. ranked q p) (x # take (run_ascending x rest) rest)"
      using assms(1,2) unfolding Cons by (rule run_ascending_sorted)
    with n d Cons show ?thesis by simp
  qed
qed

lemma sorted_keys_mono:
  assumes "sorted_wrt (\<lambda>p q. ranked q p) a" "i \<le> j" "j < length a"
  shows "\<not> key_lt (a ! j) (a ! i)"
proof (cases "i = j")
  case True
  then show ?thesis by (simp add: key_lt_def float_lt_irrefl)
next
  case False
  with assms(2) have "i < j" by simp
  from sorted_wrt_nth_less [OF assms(1) this assms(3)] have "ranked (a ! j) (a ! i)" .
  then show ?thesis
    by (auto simp: ranked_def key_lt_def float_lt_irrefl dest: float_lt_asym)
qed

lemma bisect_spec:
  assumes "sorted_wrt (\<lambda>p q. ranked q p) a" "\<forall>p\<in>set a. snd p \<noteq> NaN" "snd pivot \<noteq> NaN"
    and "l \<le> r" "r \<le> length a"
    and "\<forall>i<l. \<not> key_lt pivot (a ! i)"
    and "\<forall>i. r \<le> i \<and> i < length a \<longrightarrow> key_lt pivot (a ! i)"
  shows "l \<le> bisect pivot a l r \<and> bisect pivot a l r \<le> r
       \<and> (\<forall>i<bisect pivot a l r. \<not> key_lt pivot (a ! i))
       \<and> (\<forall>i. bisect pivot a l r \<le> i \<and> i < length a \<longrightarrow> key_lt pivot (a ! i))"
  using assms
proof (induction pivot a l r rule: bisect.induct)
  case (1 pivot a l r)
  note sorted = "1.prems"(1) and nonan = "1.prems"(2,3)
  show ?case
  proof (cases "l < r")
    case False
    then have eq: "bisect pivot a l r = l" by (subst bisect.simps) simp
    from False "1.prems"(4) have "r = l" by simp
    with "1.prems"(6,7) show ?thesis unfolding eq by blast
  next
    case True
    let ?m = "l + (r - l) div 2"
    from True "1.prems"(5) have m: "l \<le> ?m" "?m < r" "?m < length a" "?m \<le> length a"
      by auto
    show ?thesis
    proof (cases "key_lt pivot (a ! ?m)")
      case lt: True
      have eq: "bisect pivot a l r = bisect pivot a l ?m"
        using True lt by (subst bisect.simps) simp
      have upper: "\<forall>i. ?m \<le> i \<and> i < length a \<longrightarrow> key_lt pivot (a ! i)"
      proof (intro allI impI)
        fix i assume i: "?m \<le> i \<and> i < length a"
        then have i1: "?m \<le> i" and i2: "i < length a" by simp_all
        from sorted_keys_mono [OF sorted i1 i2] have above: "\<not> key_lt (a ! i) (a ! ?m)" .
        have "snd (a ! i) \<noteq> NaN" using i2 nonan(1) nth_mem by blast
        with lt above show "key_lt pivot (a ! i)" by (rule key_lt_below)
      qed
      note ih = "1.IH"(1) [OF True lt sorted nonan m(1) m(4) "1.prems"(6) upper]
      from ih have k1: "l \<le> bisect pivot a l ?m" by (rule conjunct1)
      from ih have "bisect pivot a l ?m \<le> ?m" by (elim conjE)
      with m(2) have k2: "bisect pivot a l ?m \<le> r" by linarith
      from ih have k3: "\<forall>i<bisect pivot a l ?m. \<not> key_lt pivot (a ! i)" by (elim conjE)
      from ih have k4: "\<forall>i. bisect pivot a l ?m \<le> i \<and> i < length a \<longrightarrow> key_lt pivot (a ! i)"
        by (elim conjE)
      from k1 k2 k3 k4 show ?thesis unfolding eq by (intro conjI)
    next
      case ge: False
      have eq: "bisect pivot a l r = bisect pivot a (?m + 1) r"
        using True ge by (subst bisect.simps) simp
      have lower: "\<forall>i<?m + 1. \<not> key_lt pivot (a ! i)"
      proof (intro allI impI)
        fix i assume i: "i < ?m + 1"
        then have "i \<le> ?m" by simp
        from sorted_keys_mono [OF sorted this m(3)] have below: "\<not> key_lt (a ! ?m) (a ! i)" .
        from i m(3) have "i < length a" by simp
        then have ni: "snd (a ! i) \<noteq> NaN" using nonan(1) nth_mem by blast
        have nm: "snd (a ! ?m) \<noteq> NaN" using m(3) nonan(1) nth_mem by blast
        from ge below nonan(2) nm ni show "\<not> key_lt pivot (a ! i)" by (rule not_key_lt_above)
      qed
      from m(2) have mr: "?m + 1 \<le> r" by simp
      note ih = "1.IH"(2) [OF True ge sorted nonan mr "1.prems"(5) lower "1.prems"(7)]
      from ih have "?m + 1 \<le> bisect pivot a (?m + 1) r" by (rule conjunct1)
      with m(1) have k1: "l \<le> bisect pivot a (?m + 1) r" by linarith
      from ih have k2: "bisect pivot a (?m + 1) r \<le> r" by (elim conjE)
      from ih have k3: "\<forall>i<bisect pivot a (?m + 1) r. \<not> key_lt pivot (a ! i)" by (elim conjE)
      from ih have k4: "\<forall>i. bisect pivot a (?m + 1) r \<le> i \<and> i < length a \<longrightarrow> key_lt pivot (a ! i)"
        by (elim conjE)
      from k1 k2 k3 k4 show ?thesis unfolding eq by (intro conjI)
    qed
  qed
qed

lemma insert_sorted:
  assumes "sorted_wrt (\<lambda>p q. ranked q p) a" "\<forall>p\<in>set a. snd p \<noteq> NaN" "snd pivot \<noteq> NaN"
    and "\<forall>d\<in>set a. fst pivot < fst d"
  shows "sorted_wrt (\<lambda>p q. ranked q p) (insert_at (bisect pivot a 0 (length a)) pivot a)"
proof -
  let ?k = "bisect pivot a 0 (length a)"
  have p1: "(0::nat) \<le> length a" and p2: "length a \<le> length a" by simp_all
  have p3: "\<forall>i<0::nat. \<not> key_lt pivot (a ! i)" by simp
  have p4: "\<forall>i. length a \<le> i \<and> i < length a \<longrightarrow> key_lt pivot (a ! i)"
  proof (intro allI impI)
    fix i assume "length a \<le> i \<and> i < length a"
    then have False by linarith
    then show "key_lt pivot (a ! i)" ..
  qed
  note spec = bisect_spec [OF assms(1-3) p1 p2 p3 p4]
  from spec have before: "\<forall>i<?k. \<not> key_lt pivot (a ! i)" by (elim conjE)
  from spec have after: "\<forall>i. ?k \<le> i \<and> i < length a \<longrightarrow> key_lt pivot (a ! i)"
    by (elim conjE)
  have "sorted_wrt (\<lambda>p q. ranked q p) (take ?k a @ drop ?k a)"
    using assms(1) by simp
  then have s1: "sorted_wrt (\<lambda>p q. ranked q p) (take ?k a)"
    and s2: "sorted_wrt (\<lambda>p q. ranked q p) (drop ?k a)"
    and s3: "\<forall>x\<in>set (take ?k a). \<forall>y\<in>set (drop ?k a). ranked y x"
    unfolding sorted_wrt_append by blast+
  have b: "ranked pivot x" if "x \<in> set (take ?k a)" for x
  proof -
    from that obtain i where i: "i < length (take ?k a)" "take ?k a ! i = x"
      unfolding in_set_conv_nth by blast
    then have ik: "i < ?k" and il: "i < length a" by simp_all
    with i(2) have x: "x = a ! i" by simp
    from before ik have notlt: "\<not> key_lt pivot x" unfolding x by blast
    from il have mem: "x \<in> set a" unfolding x by (rule nth_mem)
    from mem assms(2) have n1: "snd x \<noteq> NaN" by blast
    from mem assms(4) have idx: "fst pivot < fst x" by blast
    from n1 assms(3) notlt idx show ?thesis by (rule ranked_from_not_lt)
  qed
  have c: "ranked y pivot" if "y \<in> set (drop ?k a)" for y
  proof -
    from that obtain i where i: "i < length (drop ?k a)" "drop ?k a ! i = y"
      unfolding in_set_conv_nth by blast
    then have il: "?k + i < length a" by simp
    with i(2) have y: "y = a ! (?k + i)" by simp
    have "?k \<le> ?k + i" by simp
    with after il have "key_lt pivot y" unfolding y by blast
    then show ?thesis by (simp add: ranked_def)
  qed
  have "sorted_wrt (\<lambda>p q. ranked q p) (pivot # drop ?k a)"
    using s2 c by simp
  moreover have "\<forall>x\<in>set (take ?k a). \<forall>y\<in>set (pivot # drop ?k a). ranked y x"
    using s3 b by simp
  ultimately have "sorted_wrt (\<lambda>p q. ranked q p) (take ?k a @ pivot # drop ?k a)"
    using s1 unfolding sorted_wrt_append by (intro conjI)
  then show ?thesis by (simp only: insert_at_def)
qed

lemma binarysort_sorted:
  assumes "sorted_wrt (\<lambda>p q. ranked q p) run"
    and "\<forall>p\<in>set run \<union> set rest. snd p \<noteq> NaN"
    and "sorted_wrt (\<lambda>p q. fst q < fst p) rest"
    and "\<forall>d\<in>set run. \<forall>x\<in>set rest. fst x < fst d"
  shows "sorted_wrt (\<lambda>p q. ranked q p) (binarysort run rest)"
  using assms
proof (induction rest arbitrary: run)
  case Nil
  then show ?case by simp
next
  case (Cons pivot rest)
  let ?run = "insert_at (bisect pivot run 0 (length run)) pivot run"
  have "sorted_wrt (\<lambda>p q. ranked q p) ?run"
    using Cons.prems by (intro insert_sorted) auto
  moreover have "\<forall>p\<in>set ?run \<union> set rest. snd p \<noteq> NaN"
    using Cons.prems(2) by (auto simp: set_insert_at)
  moreover have "sorted_wrt (\<lambda>p q. fst q < fst p) rest"
    using Cons.prems(3) by simp
  moreover have "\<forall>d\<in>set ?run. \<forall>x\<in>set rest. fst x < fst d"
    using Cons.prems(3,4) by (auto simp: set_insert_at)
  ultimately show ?case using Cons.IH [of ?run] by simp
qed

lemma forward_sort_sorted:
  assumes "\<forall>p\<in>set xs. snd p \<noteq> NaN" and "sorted_wrt (\<lambda>p q. fst q < fst p) xs"
  shows "sorted_wrt (\<lambda>p q. ranked q p) (forward_sort xs)"
proof -
  obtain n d where c: "count_run xs = (n, d)" by (cases "count_run xs")
  let ?run = "if d then rev (take n xs) else take n xs"
  have parts: "xs = take n xs @ drop n xs" by simp
  have sets: "set ?run = set (take n xs)" by simp
  have "sorted_wrt (\<lambda>p q. ranked q p) ?run"
    using assms c by (rule first_run_sorted)
  moreover have "\<forall>p\<in>set ?run \<union> set (drop n xs). snd p \<noteq> NaN"
    using assms(1) by (auto dest: in_set_takeD in_set_dropD)
  moreover have "sorted_wrt (\<lambda>p q. fst q < fst p) (drop n xs)"
    using assms(2) by (metis parts sorted_wrt_append)
  moreover have "\<forall>d\<in>set ?run. \<forall>x\<in>set (drop n xs). fst x < fst d"
    unfolding sets using assms(2) by (metis parts sorted_wrt_append)
  ultimately have "sorted_wrt (\<lambda>p q. ranked q p) (binarysort ?run (drop n xs))"
    by (rule binarysort_sorted)
  with c show ?thesis by (simp add: forward_sort_def)
qed

lemma ranked_sort:
  assumes "\<forall>p\<in>set xs. snd p \<noteq> NaN" and "sorted_wrt (\<lambda>p q. fst p < fst q) xs"
  shows "sorted_wrt ranked (sort_by_score_desc xs)"
proof -
  have "sorted_wrt (\<lambda>p q. ranked q p) (forward_sort (rev xs))"
    using assms by (intro forward_sort_sorted) (simp_all add: sorted_wrt_rev)
  then show ?thesis by (simp add: sort_by_score_desc_def sorted_wrt_rev)
qed


section \<open>Properties of the retriever\<close>

lemma norm_index_le: "norm_index n k \<le> n"
  by (auto simp: norm_index_def)

lemma norm_index_nonneg: "0 \<le> k \<Longrightarrow> int (norm_index n k) \<le> k"
  by (simp add: norm_index_def)

lemma length_slice_to: "0 \<le> k \<Longrightarrow> int (length (slice_to xs k)) \<le> k"
  using norm_index_nonneg [of k "length xs"] by (simp add: slice_to_def)

lemma norm_index_mono: "m \<le> n \<Longrightarrow> norm_index m k \<le> norm_index n k"
  by (auto simp: norm_index_def)

lemma length_slice_to_mono:
  "length xs \<le> length ys \<Longrightarrow> length (slice_to xs k) \<le> length (slice_to ys k)"
  using norm_index_mono [of "length xs" "length ys" k] norm_index_le [of "length xs" k]
    norm_index_le [of "length ys" k]
  by (simp add: slice_to_def)

lemma similarities_eq:
  "similarities c q es = map (\<lambda>i. (i, c q (es ! i))) [0..<length es]"
  by (auto simp: similarities_def enumerate_eq_zip intro!: nth_equalityI)

lemma sorted_wrt_take: "sorted_wrt R xs \<Longrightarrow> sorted_wrt R (take n xs)"
  by (metis append_take_drop_id sorted_wrt_append)

lemma similarities_indexed: "sorted_wrt (\<lambda>p q. fst p < fst q) (similarities c q es)"
  by (simp add: similarities_eq sorted_wrt_map)

lemma similarities_no_nan:
  assumes "\<forall>row\<in>set es. c q row \<noteq> NaN"
  shows "\<forall>p\<in>set (similarities c q es). snd p \<noteq> NaN"
  using assms by (auto simp: similarities_eq)

lemma sorted_similarities_ranked:
  assumes "\<forall>row\<in>set es. c q row \<noteq> NaN"
  shows "sorted_wrt ranked (sort_by_score_desc (similarities c q es))"
  using similarities_no_nan [where c = c and q = q and es = es, OF assms] similarities_indexed
  by (rule ranked_sort)

lemma top_similarities_ranked:
  assumes "\<forall>row\<in>set es. c q row \<noteq> NaN"
  shows "sorted_wrt ranked (top_similarities c q es k t)"
  unfolding top_similarities_def slice_to_def
  using sorted_similarities_ranked [where c = c and q = q and es = es, OF assms]
  by (intro sorted_wrt_take sorted_wrt_filter)

lemma top_similarities_subset:
  "set (top_similarities c q es k t)
     \<subseteq> {p \<in> set (similarities c q es). float_ge (snd p) t}"
  unfolding top_similarities_def slice_to_def
  using set_take_subset [of "norm_index _ k"] by (fastforce simp: set_sort_by_score_desc)

lemma top_similarities_pairs:
  "p \<in> set (top_similarities c q es k t)
   \<Longrightarrow> fst p < length es \<and> snd p = c q (es ! fst p) \<and> float_ge (snd p) t"
  using top_similarities_subset [of c q es k t] by (auto simp: similarities_eq)

lemma top_similarities_map:
  "top_similarities c q es k t
     = map (\<lambda>i. (i, c q (es ! i))) (map fst (top_similarities c q es k t))"
  using top_similarities_pairs [of _ c q es k t]
  by (auto intro!: nth_equalityI simp: prod_eq_iff)

text \<open>
  Claim C2, as the code has it.  For a count \<open>top_k \<ge> 0\<close>: whenever \<open>retrieve_context\<close>
  returns, it returns at most \<open>top_k\<close> indices; every returned index is a row of the
  array whose score is \<open>>=\<close> the threshold; the contexts are the documents at these
  indices.  When no row's score is a not-a-number, the indices are in descending order
  of score, and indices of equal score are in ascending (original chunk) order.
\<close>

theorem retrieve_context_ranked:
  assumes "0 \<le> top_k"
    and "retrieve_context embed_query similarity query documents (Some rows) top_k
           similarity_threshold = Inr (contexts, indices)"
  shows "int (length indices) \<le> top_k
       \<and> (\<forall>i\<in>set indices. i < length rows
             \<and> float_ge (similarity (embed_query query) (rows ! i)) similarity_threshold)
       \<and> contexts = map (nth documents) indices
       \<and> ((\<forall>row\<in>set rows. similarity (embed_query query) row \<noteq> NaN) \<longrightarrow>
            sorted_wrt (score_before (\<lambda>i. similarity (embed_query query) (rows ! i))) indices)"
proof (cases "documents = []")
  case True
  with assms(2) have "indices = []" "contexts = []"
    by (simp_all add: retrieve_context_def)
  with assms(1) show ?thesis by simp
next
  case False
  let ?q = "embed_query query"
  let ?tops = "top_similarities similarity ?q rows top_k similarity_threshold"
  let ?score = "\<lambda>i. similarity ?q (rows ! i)"
  from False assms(2) have idx: "indices = map fst ?tops"
    and ctx: "contexts = map (nth documents) indices"
    by (auto simp: retrieve_context_def Let_def split: if_splits)
  have len: "int (length indices) \<le> top_k"
    using length_slice_to [OF assms(1)] by (simp add: idx top_similarities_def)
  have above: "\<forall>i\<in>set indices. i < length rows \<and> float_ge (?score i) similarity_threshold"
    using top_similarities_pairs [of _ similarity ?q rows top_k similarity_threshold]
    by (fastforce simp: idx)
  have tops: "?tops = map (\<lambda>i. (i, ?score i)) indices"
    unfolding idx by (rule top_similarities_map)
  have ord: "sorted_wrt (score_before ?score) indices"
    if "\<forall>row\<in>set rows. similarity ?q row \<noteq> NaN"
  proof -
    have "sorted_wrt ranked (map (\<lambda>i. (i, ?score i)) indices)"
      using top_similarities_ranked [where c = similarity and q = ?q and es = rows
          and k = top_k and t = similarity_threshold, OF that]
      by (simp only: tops [symmetric])
    then show ?thesis
      by (simp add: sorted_wrt_map ranked_def key_lt_def score_before_def [abs_def])
  qed
  from len above ord ctx show ?thesis by blast
qed

lemma filter_threshold_prefix:
  assumes "sorted_wrt ranked xs" "float_le t1 t2"
  shows "\<exists>zs. filter (\<lambda>(i, score). float_ge score t1) xs
              = filter (\<lambda>(i, score). float_ge score t2) xs @ zs"
  using assms(1)
proof (induction xs)
  case Nil
  then show ?case by simp
next
  case (Cons x xs)
  from assms(2) have t: "float_ge t2 t1" by (auto simp: float_ge_def float_le_def float_eq_def)
  show ?case
  proof (cases "float_ge (snd x) t2")
    case True
    then have "float_ge (snd x) t1" using t by (rule float_ge_trans)
    with True Cons show ?thesis by (auto simp: case_prod_beta)
  next
    case False
    have "\<not> float_ge (snd y) t2" if "y \<in> set xs" for y
    proof
      assume ge: "float_ge (snd y) t2"
      from that Cons.prems have "ranked x y" by simp
      then have "float_ge (snd x) (snd y)"
        using float_ge_not_nan [OF ge]
        by (auto simp: ranked_def key_lt_def float_ge_def float_eq_def)
      then have "float_ge (snd x) t2" using ge by (rule float_ge_trans)
      with False show False by simp
    qed
    with False have "filter (\<lambda>(i, score). float_ge score t2) (x # xs) = []"
      by (auto simp: filter_empty_conv case_prod_beta)
    then show ?thesis by simp
  qed
qed

lemma slice_to_prefix:
  assumes "ys = xs @ zs"
  shows "\<exists>ws. slice_to ys k = slice_to xs k @ ws"
proof -
  let ?n1 = "norm_index (length xs) k" and ?n2 = "norm_index (length ys) k"
  have le: "?n1 \<le> ?n2" using assms by (intro norm_index_mono) simp
  have "take ?n1 (take ?n2 ys) = take ?n1 xs"
    using le norm_index_le [of "length xs" k] assms by (simp add: min_absorb1)
  then have "take ?n2 ys = take ?n1 xs @ drop ?n1 (take ?n2 ys)"
    by (metis append_take_drop_id)
  then show ?thesis unfolding slice_to_def by blast
qed

lemma top_similarities_prefix:
  assumes "float_le t1 t2" and "\<forall>row\<in>set es. c q row \<noteq> NaN"
  shows "\<exists>ws. top_similarities c q es k t1 = top_similarities c q es k t2 @ ws"
proof -
  note srt = sorted_similarities_ranked [where c = c and q = q and es = es, OF assms(2)]
  from filter_threshold_prefix [OF srt assms(1)]
  obtain zs where
    "filter (\<lambda>(i, score). float_ge score t1) (sort_by_score_desc (similarities c q es))
       = filter (\<lambda>(i, score). float_ge score t2) (sort_by_score_desc (similarities c q es)) @ zs"
    by blast
  from slice_to_prefix [OF this] show ?thesis unfolding top_similarities_def .
qed

lemma top_similarities_count:
  assumes "float_le t1 t2"
  shows "length (top_similarities c q es k t2) \<le> length (top_similarities c q es k t1)"
proof -
  from assms have t: "float_ge t2 t1" by (auto simp: float_ge_def float_le_def float_eq_def)
  let ?sorted = "sort_by_score_desc (similarities c q es)"
  have "length (filter (\<lambda>(i, score). float_ge score t2) ?sorted)
          \<le> length (filter (\<lambda>(i, score). float_ge score t1) ?sorted)"
    unfolding length_filter_conv_card
    by (rule card_mono) (use t in \<open>auto intro: float_ge_trans\<close>)
  then show ?thesis unfolding top_similarities_def by (rule length_slice_to_mono)
qed

text \<open>
  Claim C5.  For thresholds \<open>t1 <= t2\<close> and everything else fixed, a call with \<open>t2\<close> that
  returns, returns no more indices and no more contexts than the call with \<open>t1\<close>.
  When no row's score is a not-a-number, the call with \<open>t2\<close> returns whenever the call
  with \<open>t1\<close> does, and its indices are the first ones of that call.
\<close>

theorem retrieve_context_threshold_monotone:
  assumes "float_le t1 t2"
    and "retrieve_context embed_query similarity query documents embeddings top_k t1
           = Inr (contexts1, indices1)"
  shows "(\<forall>contexts2 indices2.
            retrieve_context embed_query similarity query documents embeddings top_k t2
              = Inr (contexts2, indices2)
            \<longrightarrow> length indices2 \<le> length indices1 \<and> length contexts2 \<le> length contexts1)
       \<and> ((\<forall>rows. embeddings = Some rows \<longrightarrow>
               (\<forall>row\<in>set rows. similarity (embed_query query) row \<noteq> NaN)) \<longrightarrow>
            (\<exists>contexts2 indices2.
               retrieve_context embed_query similarity query documents embeddings top_k t2
                 = Inr (contexts2, indices2)
               \<and> length indices2 \<le> length indices1
               \<and> length contexts2 \<le> length contexts1
               \<and> take (length indices2) indices1 = indices2))"
proof (cases "documents = [] \<or> embeddings = None")
  case True
  with assms(2) show ?thesis
    by (auto simp: retrieve_context_def split: option.splits)
next
  case False
  then obtain rows where rows: "embeddings = Some rows" and docs: "documents \<noteq> []"
    by auto
  let ?tops1 = "top_similarities similarity (embed_query query) rows top_k t1"
  let ?tops2 = "top_similarities similarity (embed_query query) rows top_k t2"
  from assms(2) rows docs have i1: "indices1 = map fst ?tops1"
    and c1: "contexts1 = map (nth documents) indices1"
    and ok1: "list_all (\<lambda>i. i < length documents) (map fst ?tops1)"
    by (auto simp: retrieve_context_def Let_def split: if_splits)
  have count: "length indices2 \<le> length indices1 \<and> length contexts2 \<le> length contexts1"
    if "retrieve_context embed_query similarity query documents embeddings top_k t2
              = Inr (contexts2, indices2)" for contexts2 indices2
  proof -
    from that rows docs have "indices2 = map fst ?tops2"
      "contexts2 = map (nth documents) indices2"
      by (auto simp: retrieve_context_def Let_def split: if_splits)
    with i1 c1 top_similarities_count [OF assms(1), of similarity "embed_query query" rows top_k]
    show ?thesis by simp
  qed
  have returns: "\<exists>contexts2 indices2.
               retrieve_context embed_query similarity query documents embeddings top_k t2
                 = Inr (contexts2, indices2)
               \<and> length indices2 \<le> length indices1
               \<and> length contexts2 \<le> length contexts1
               \<and> take (length indices2) indices1 = indices2"
    if "\<forall>row\<in>set rows. similarity (embed_query query) row \<noteq> NaN"
  proof -
    from top_similarities_prefix [where c = similarity and q = "embed_query query" and es = rows
        and k = top_k, OF assms(1) that]
    obtain ws where ws: "?tops1 = ?tops2 @ ws" by blast
    from ok1 have ok2: "list_all (\<lambda>i. i < length documents) (map fst ?tops2)"
      unfolding ws by simp
    have r2: "retrieve_context embed_query similarity query documents embeddings top_k t2
        = Inr (map (nth documents) (map fst ?tops2), map fst ?tops2)"
      using rows docs ok2 by (simp add: retrieve_context_def Let_def)
    have "length (map fst ?tops2) \<le> length indices1"
      "take (length (map fst ?tops2)) indices1 = map fst ?tops2"
      unfolding i1 ws by simp_all
    with r2 c1 show ?thesis by simp
  qed
  from count returns rows show ?thesis by blast
qed

lemma retrieve_context_returns:
  assumes "length rows \<le> length documents"
  shows "\<exists>contexts indices.
           retrieve_context embed_query similarity query documents (Some rows) top_k t
             = Inr (contexts, indices)"
proof -
  have "list_all (\<lambda>i. i < length documents)
          (map fst (top_similarities similarity (embed_query query) rows top_k t))"
    using top_similarities_pairs [of _ similarity "embed_query query" rows top_k t] assms
    by (fastforce simp: list_all_iff)
  then show ?thesis by (simp add: retrieve_context_def Let_def)
qed

text \<open>
  Claim C9.  \<open>retrieve_context\<close> returns the empty pair, and no exception, when the
  document list is empty, when the embedding array is \<open>None\<close>, and when no row's score
  is \<open>>=\<close> the threshold.
\<close>

theorem retrieve_context_empty:
  "retrieve_context embed_query similarity query [] embeddings top_k t = Inr ([], [])
   \<and> retrieve_context embed_query similarity query documents None top_k t = Inr ([], [])
   \<and> ((\<forall>row\<in>set rows. \<not> float_ge (similarity (embed_query query) row) t) \<longrightarrow>
        retrieve_context embed_query similarity query documents (Some rows) top_k t
          = Inr ([], []))"
proof -
  have "top_similarities similarity (embed_query query) rows top_k t = []"
    if "\<forall>row\<in>set rows. \<not> float_ge (similarity (embed_query query) row) t"
  proof -
    have "filter (\<lambda>(i, score). float_ge score t)
            (sort_by_score_desc (similarities similarity (embed_query query) rows)) = []"
      using that [rule_format, OF nth_mem]
      by (fastforce simp: filter_empty_conv set_sort_by_score_desc similarities_eq)
    then show ?thesis by (simp add: top_similarities_def slice_to_def)
  qed
  then show ?thesis
    by (auto simp: retrieve_context_def split: option.splits)
qed

lemma retrieve_context_example:
  "retrieve_context (\<lambda>q. Num 0) (\<lambda>a b. b) ''revenue'' [''a'', ''b'', ''c'', ''d'']
     (Some [Num (1/2), Num (9/10), Num (1/2), Num (1/10)]) 3 (Num (1/5))
   = Inr ([''b'', ''a'', ''c''], [1, 0, 2])"
  by code_simp

lemma retrieve_context_example_high:
  "retrieve_context (\<lambda>q. Num 0) (\<lambda>a b. b) ''revenue'' [''a'', ''b'', ''c'', ''d'']
     (Some [Num (1/2), Num (9/10), Num (1/2), Num (1/10)]) 3 (Num (3/5))
   = Inr ([''b''], [1])"
  by code_simp

theorem retrieve_context_ranked_witness:
  "(0::int) \<le> 3
   \<and> retrieve_context (\<lambda>q. Num 0) (\<lambda>a b. b) ''revenue'' [''a'', ''b'', ''c'', ''d'']
         (Some [Num (1/2), Num (9/10), Num (1/2), Num (1/10)]) 3 (Num (1/5))
       = Inr ([''b'', ''a'', ''c''], [1, 0, 2])
   \<and> Num (1/2) \<noteq> NaN \<and> Num (9/10) \<noteq> NaN \<and> Num (1/10) \<noteq> NaN
   \<and> int (length [1, 0, 2 :: nat]) \<le> 3
   \<and> sorted_wrt (score_before (\<lambda>i. [Num (1/2), Num (9/10), Num (1/2), Num (1/10)] ! i))
         [1, 0, 2]"
proof -
  note h = retrieve_context_example
  have k: "(0::int) \<le> 3" by simp
  have n: "\<forall>row\<in>set [Num (1/2), Num (9/10), Num (1/2), Num (1/10)].
      (\<lambda>a b. b) ((\<lambda>q. Num 0) ''revenue'') row \<noteq> NaN"
    by simp
  have n1: "Num (1/2) \<noteq> NaN" and n2: "Num (9/10) \<noteq> NaN" and n3: "Num (1/10) \<noteq> NaN"
    by simp_all
  note r = retrieve_context_ranked [OF k h]
  from k h n1 n2 n3 r [THEN conjunct1]
    r [THEN conjunct2, THEN conjunct2, THEN conjunct2, THEN mp, OF n]
  show ?thesis by (intro conjI)
qed

lemma cosine_examples:
  "cosine_similarity exact_numpy (unit_query ''revenue'') [Num 3, Num 4] = Num (3/5)"
  "cosine_similarity exact_numpy (unit_query ''revenue'') [Num 4, Num 3] = Num (4/5)"
  "cosine_similarity exact_numpy (unit_query ''revenue'') [Num 1, Num 0] = Num 1"
  "cosine_similarity exact_numpy (unit_query ''revenue'') [NaN, Num 0] = NaN"
  by (simp_all add: cosine_similarity_def exact_numpy_def float_eq_def unit_query_def)

text \<open>
  The claim as stated fails in two ways.  With a not-a-number among the scores the
  sort leaves the list as it is: for the scores 0.6, nan, 0.8 the call returns the
  indices 0 and 2, the lower score first.  With \<open>top_k = -1\<close> the slice drops the last
  pair only: two indices come back.
\<close>

theorem retrieve_context_ranked_counterexample:
  "retrieve_context unit_query (cosine_similarity exact_numpy) ''revenue'' [''a'', ''b'', ''c'']
     (Some [[Num 3, Num 4], [NaN, Num 0], [Num 4, Num 3]]) 3 (Num (1/5))
     = Inr ([''a'', ''c''], [0, 2])
   \<and> cosine_similarity exact_numpy (unit_query ''revenue'') [Num 3, Num 4] = Num (3/5)
   \<and> cosine_similarity exact_numpy (unit_query ''revenue'') [Num 4, Num 3] = Num (4/5)
   \<and> float_lt (Num (3/5)) (Num (4/5))
   \<and> retrieve_context unit_query (cosine_similarity exact_numpy) ''revenue'' [''a'', ''b'', ''c'']
       (Some [[Num 3, Num 4], [Num 4, Num 3], [Num 1, Num 0]]) (- 1) (Num (1/5))
     = Inr ([''c'', ''b''], [2, 1])
   \<and> \<not> int (length [2, 1 :: nat]) \<le> - 1"
proof -
  have s1: "similarities (cosine_similarity exact_numpy) (unit_query ''revenue'')
        [[Num 3, Num 4], [NaN, Num 0], [Num 4, Num 3]]
      = [(0, Num (3/5)), (1, NaN), (2, Num (4/5))]"
    by (simp add: similarities_def enumerate_eq_zip upt_rec cosine_examples)
  have t1: "top_similarities (cosine_similarity exact_numpy) (unit_query ''revenue'')
        [[Num 3, Num 4], [NaN, Num 0], [Num 4, Num 3]] 3 (Num (1/5))
      = [(0, Num (3/5)), (2, Num (4/5))]"
    unfolding top_similarities_def s1 by code_simp
  have a: "retrieve_context unit_query (cosine_similarity exact_numpy) ''revenue''
      [''a'', ''b'', ''c''] (Some [[Num 3, Num 4], [NaN, Num 0], [Num 4, Num 3]]) 3 (Num (1/5))
     = Inr ([''a'', ''c''], [0, 2])"
    by (simp add: retrieve_context_def t1)
  have s2: "similarities (cosine_similarity exact_numpy) (unit_query ''revenue'')
        [[Num 3, Num 4], [Num 4, Num 3], [Num 1, Num 0]]
      = [(0, Num (3/5)), (1, Num (4/5)), (2, Num 1)]"
    by (simp add: similarities_def enumerate_eq_zip upt_rec cosine_examples)
  have t2: "top_similarities (cosine_similarity exact_numpy) (unit_query ''revenue'')
        [[Num 3, Num 4], [Num 4, Num 3], [Num 1, Num 0]] (- 1) (Num (1/5))
      = [(2, Num 1), (1, Num (4/5))]"
    unfolding top_similarities_def s2 by code_simp
  have b: "retrieve_context unit_query (cosine_similarity exact_numpy) ''revenue''
      [''a'', ''b'', ''c''] (Some [[Num 3, Num 4], [Num 4, Num 3], [Num 1, Num 0]]) (- 1)
      (Num (1/5))
     = Inr ([''c'', ''b''], [2, 1])"
    by (simp add: retrieve_context_def t2)
  have c: "float_lt (Num (3/5)) (Num (4/5))" by simp
  have d: "\<not> int (length [2, 1 :: nat]) \<le> - 1" by simp
  from a cosine_examples(1) cosine_examples(2) c b d show ?thesis by (intro conjI)
qed

theorem retrieve_context_threshold_monotone_witness:
  "float_le (Num (1/5)) (Num (3/5))
   \<and> retrieve_context (\<lambda>q. Num 0) (\<lambda>a b. b) ''revenue'' [''a'', ''b'', ''c'', ''d'']
         (Some [Num (1/2), Num (9/10), Num (1/2), Num (1/10)]) 3 (Num (1/5))
       = Inr ([''b'', ''a'', ''c''], [1, 0, 2])
   \<and> Num (1/2) \<noteq> NaN \<and> Num (9/10) \<noteq> NaN \<and> Num (1/10) \<noteq> NaN
   \<and> retrieve_context (\<lambda>q. Num 0) (\<lambda>a b. b) ''revenue'' [''a'', ''b'', ''c'', ''d'']
         (Some [Num (1/2), Num (9/10), Num (1/2), Num (1/10)]) 3 (Num (3/5))
       = Inr ([''b''], [1])
   \<and> length [1 :: nat] \<le> length [1, 0, 2 :: nat]
   \<and> length [''b''] \<le> length [''b'', ''a'', ''c'']
   \<and> take (length [1 :: nat]) [1, 0, 2 :: nat] = [1]"
proof -
  note h1 = retrieve_context_example and h2 = retrieve_context_example_high
  have k: "float_le (Num (1/5)) (Num (3/5))" by (simp add: float_le_def)
  have n1: "Num (1/2) \<noteq> NaN" and n2: "Num (9/10) \<noteq> NaN" and n3: "Num (1/10) \<noteq> NaN"
    by simp_all
  have n: "\<forall>rows. Some [Num (1/2), Num (9/10), Num (1/2), Num (1/10)] = Some rows \<longrightarrow>
      (\<forall>row\<in>set rows. (\<lambda>a b. b) ((\<lambda>q. Num 0) ''revenue'') row \<noteq> NaN)"
    by auto
  note r = retrieve_context_threshold_monotone [OF k h1]
  from r [THEN conjunct1, rule_format, OF h2]
  have l1: "length [1 :: nat] \<le> length [1, 0, 2 :: nat]"
    and l2: "length [''b''] \<le> length [''b'', ''a'', ''c'']"
    by blast+
  from r [THEN conjunct2, THEN mp, OF n] obtain contexts2 indices2 where
    r2: "retrieve_context (\<lambda>q. Num 0) (\<lambda>a b. b) ''revenue'' [''a'', ''b'', ''c'', ''d'']
         (Some [Num (1/2), Num (9/10), Num (1/2), Num (1/10)]) 3 (Num (3/5))
       = Inr (contexts2, indices2)"
    and p: "take (length indices2) [1, 0, 2 :: nat] = indices2"
    by blast
  from r2 h2 have "indices2 = [1]" by simp
  with p have l3: "take (length [1 :: nat]) [1, 0, 2 :: nat] = [1]" by simp
  from k h1 n1 n2 n3 h2 l1 l2 l3 show ?thesis by (intro conjI)
qed

theorem retrieve_context_empty_witness:
  "retrieve_context (\<lambda>q. Num 0) (\<lambda>a b. b) ''revenue'' [] (Some [Num (9/10)]) 3 (Num (1/5))
     = Inr ([], [])
   \<and> retrieve_context (\<lambda>q. Num 0) (\<lambda>a b. b) ''revenue'' [''a'', ''b''] None 3 (Num (1/5))
     = Inr ([], [])
   \<and> \<not> float_ge (Num (1/10)) (Num (1/5)) \<and> \<not> float_ge NaN (Num (1/5))
   \<and> retrieve_context (\<lambda>q. Num 0) (\<lambda>a b. b) ''revenue'' [''a'', ''b'']
         (Some [Num (1/10), NaN]) 3 (Num (1/5)) = Inr ([], [])"
proof -
  note r = retrieve_context_empty [where embed_query = "\<lambda>q. Num 0" and similarity = "\<lambda>a b. b"
      and query = "''revenue''" and documents = "[''a'', ''b'']" and rows = "[Num (1/10), NaN]"
      and top_k = 3 and t = "Num (1/5)" and embeddings = "Some [Num (9/10)]"]
  have k1: "\<not> float_ge (Num (1/10)) (Num (1/5))" and k2: "\<not> float_ge NaN (Num (1/5))"
    by (simp_all add: float_ge_def float_eq_def)
  have k: "\<forall>row\<in>set [Num (1/10), NaN]. \<not> float_ge ((\<lambda>a b. b) ((\<lambda>q. Num 0) ''revenue'') row) (Num (1/5))"
    using k1 k2 by simp
  from r [THEN conjunct1] r [THEN conjunct2, THEN conjunct1] k1 k2
    r [THEN conjunct2, THEN conjunct2, THEN mp, OF k]
  show ?thesis by (intro conjI)
qed


section \<open>Properties of the cosine similarity\<close>

lemma exact_mul_commute: "exact_mul x y = exact_mul y x"
  by (cases x; cases y) (auto simp: mult.commute)

lemma exact_dot_commute: "exact_dot u v = exact_dot v u"
proof (induction u arbitrary: v)
  case Nil
  then show ?case by (cases v) simp_all
next
  case (Cons x xs)
  show ?case
  proof (cases v)
    case Nil
    then show ?thesis by simp
  next
    case (Cons y ys)
    with Cons.IH [of ys] show ?thesis by (simp add: exact_mul_commute [of x y])
  qed
qed

text \<open>
  Claim C4, as the code has it.  When \<open>np.dot\<close> is symmetric and the product of two
  floats commutative, \<open>cosine_similarity(a, b)\<close> and \<open>cosine_similarity(b, a)\<close> are the
  same float, which \<open>==\<close> reports as equal unless it is a not-a-number.  When either
  vector is all zero or has norm 0 the result is \<open>0.0\<close>.  In every other case the
  result is the float quotient of the dot product by the product of the norms; no
  bound on it is proved, since it is rounded and can be a not-a-number.
\<close>

theorem cosine_similarity_properties:
  "((\<forall>u v. np_dot np u v = np_dot np v u) \<and> (\<forall>x y. float_mul np x y = float_mul np y x)
      \<longrightarrow> cosine_similarity np a b = cosine_similarity np b a
          \<and> (cosine_similarity np a b \<noteq> NaN
               \<longrightarrow> float_eq (cosine_similarity np a b) (cosine_similarity np b a)))
   \<and> (np_all_zero np a \<or> np_all_zero np b
        \<or> float_eq (np_norm np a) (Num 0) \<or> float_eq (np_norm np b) (Num 0)
      \<longrightarrow> cosine_similarity np a b = Num 0)
   \<and> (\<not> (np_all_zero np a \<or> np_all_zero np b
           \<or> float_eq (np_norm np a) (Num 0) \<or> float_eq (np_norm np b) (Num 0))
      \<longrightarrow> cosine_similarity np a b
            = float_div np (np_dot np a b) (float_mul np (np_norm np a) (np_norm np b)))"
proof (intro conjI impI)
  assume sym: "(\<forall>u v. np_dot np u v = np_dot np v u) \<and> (\<forall>x y. float_mul np x y = float_mul np y x)"
  then have d: "np_dot np a b = np_dot np b a"
    and m: "float_mul np (np_norm np a) (np_norm np b) = float_mul np (np_norm np b) (np_norm np a)"
    by blast+
  show eq: "cosine_similarity np a b = cosine_similarity np b a"
    unfolding cosine_similarity_def Let_def d m by auto
  assume "cosine_similarity np a b \<noteq> NaN"
  with eq show "float_eq (cosine_similarity np a b) (cosine_similarity np b a)"
    by (simp add: float_eq_def)
next
  assume "np_all_zero np a \<or> np_all_zero np b
        \<or> float_eq (np_norm np a) (Num 0) \<or> float_eq (np_norm np b) (Num 0)"
  then show "cosine_similarity np a b = Num 0"
    by (auto simp: cosine_similarity_def Let_def)
next
  assume "\<not> (np_all_zero np a \<or> np_all_zero np b
           \<or> float_eq (np_norm np a) (Num 0) \<or> float_eq (np_norm np b) (Num 0))"
  then show "cosine_similarity np a b
            = float_div np (np_dot np a b) (float_mul np (np_norm np a) (np_norm np b))"
    by (auto simp: cosine_similarity_def Let_def)
qed

theorem cosine_similarity_properties_witness:
  "(\<forall>u v. np_dot exact_numpy u v = np_dot exact_numpy v u)
   \<and> (\<forall>x y. float_mul exact_numpy x y = float_mul exact_numpy y x)
   \<and> cosine_similarity exact_numpy [Num 3, Num 4] [Num 4, Num 3] = Num (24/25)
   \<and> cosine_similarity exact_numpy [Num 4, Num 3] [Num 3, Num 4] = Num (24/25)
   \<and> within_unit (Num (24/25))
   \<and> np_all_zero exact_numpy [Num 0, Num 0]
   \<and> cosine_similarity exact_numpy [Num 0, Num 0] [Num 3, Num 4] = Num 0"
proof -
  have h1: "\<forall>u v. np_dot exact_numpy u v = np_dot exact_numpy v u"
    using exact_dot_commute by (simp add: exact_numpy_def)
  have h2: "\<forall>x y. float_mul exact_numpy x y = float_mul exact_numpy y x"
    using exact_mul_commute by (simp add: exact_numpy_def)
  note r = cosine_similarity_properties [where np = exact_numpy]
  have v: "cosine_similarity exact_numpy [Num 3, Num 4] [Num 4, Num 3] = Num (24/25)"
    by (simp add: cosine_similarity_def exact_numpy_def float_eq_def)
  from r [where a = "[Num 3, Num 4]" and b = "[Num 4, Num 3]", THEN conjunct1, THEN mp,
      OF conjI [OF h1 h2], THEN conjunct1]
  have s: "cosine_similarity exact_numpy [Num 4, Num 3] [Num 3, Num 4] = Num (24/25)"
    unfolding v by simp
  have w: "within_unit (Num (24/25))"
    by (simp add: within_unit_def float_le_def)
  have z: "np_all_zero exact_numpy [Num 0, Num 0]"
    by (simp add: exact_numpy_def float_eq_def)
  from r [where a = "[Num 0, Num 0]" and b = "[Num 3, Num 4]", THEN conjunct2, THEN conjunct1,
      THEN mp, OF disjI1 [OF z]]
  have zero: "cosine_similarity exact_numpy [Num 0, Num 0] [Num 3, Num 4] = Num 0" .
  from h1 h2 v s w z zero show ?thesis by (intro conjI)
qed

text \<open>
  The claim as stated fails: for the non-zero vector with the one component \<open>inf\<close> the
  dot product and both norms are \<open>inf\<close>, and the quotient \<open>inf / inf\<close> is a
  not-a-number, which is not in \<open>[-1, 1]\<close> and is not \<open>==\<close> to itself.
\<close>

theorem cosine_similarity_bound_counterexample:
  "\<not> np_all_zero exact_numpy [PosInf]
   \<and> cosine_similarity exact_numpy [PosInf] [PosInf] = NaN
   \<and> \<not> within_unit (cosine_similarity exact_numpy [PosInf] [PosInf])
   \<and> \<not> float_eq (cosine_similarity exact_numpy [PosInf] [PosInf])
          (cosine_similarity exact_numpy [PosInf] [PosInf])"
  by (simp add: cosine_similarity_def exact_numpy_def float_eq_def within_unit_def float_le_def)


section \<open>Properties of the prose chunker\<close>

declare chunk_loop.simps [simp del] window_starts.simps [simp del]

lemma next_pos_step:
  "int (next_pos pos chunk_size overlap) = int pos + max (chunk_size - overlap) 1"
  by (simp add: next_pos_def max_def)

lemma next_pos_greater: "pos < next_pos pos chunk_size overlap"
  using next_pos_step [of pos chunk_size overlap] by linarith

lemma window_starts_bounds:
  "p \<in> set (window_starts n chunk_size overlap pos) \<Longrightarrow> pos \<le> p \<and> p < n"
proof (induction n chunk_size overlap pos rule: window_starts.induct)
  case (1 n chunk_size overlap pos)
  show ?case
  proof (cases "pos < n")
    case True
    with "1.prems" consider "p = pos"
      | "p \<in> set (window_starts n chunk_size overlap (next_pos pos chunk_size overlap))"
      by (subst (asm) window_starts.simps) auto
    then show ?thesis
    proof cases
      case 1
      with True show ?thesis by simp
    next
      case 2
      with "1.IH" True have "next_pos pos chunk_size overlap \<le> p \<and> p < n" by blast
      with next_pos_greater [of pos chunk_size overlap] show ?thesis by simp
    qed
  next
    case False
    with "1.prems" show ?thesis by (subst (asm) window_starts.simps) simp
  qed
qed

lemma window_starts_increasing:
  "sorted_wrt (<) (window_starts n chunk_size overlap pos)"
proof (induction n chunk_size overlap pos rule: window_starts.induct)
  case (1 n chunk_size overlap pos)
  show ?case
  proof (cases "pos < n")
    case True
    have "pos < p" if "p \<in> set (window_starts n chunk_size overlap (next_pos pos chunk_size overlap))" for p
      using window_starts_bounds [OF that] next_pos_greater [of pos chunk_size overlap] by simp
    with "1.IH" True show ?thesis by (subst window_starts.simps) auto
  next
    case False
    then show ?thesis by (subst window_starts.simps) simp
  qed
qed

lemma window_starts_length:
  "length (window_starts n chunk_size overlap pos) \<le> n - pos"
proof (induction n chunk_size overlap pos rule: window_starts.induct)
  case (1 n chunk_size overlap pos)
  show ?case
  proof (cases "pos < n")
    case True
    with "1.IH" have "length (window_starts n chunk_size overlap (next_pos pos chunk_size overlap))
        \<le> n - next_pos pos chunk_size overlap" by blast
    with True next_pos_greater [of pos chunk_size overlap] show ?thesis
      by (subst window_starts.simps) simp
  next
    case False
    then show ?thesis by (subst window_starts.simps) simp
  qed
qed

lemma chunk_loop_trace:
  "chunk_loop doc chunk_size overlap pos chunks
     = chunks @ filter (\<lambda>c. c \<noteq> [])
         (map (\<lambda>p. chunk_at doc p chunk_size)
            (window_starts (length doc) chunk_size overlap pos))"
proof (induction doc chunk_size overlap pos chunks rule: chunk_loop.induct)
  case (1 doc chunk_size overlap pos chunks)
  show ?case
  proof (cases "pos < length doc")
    case False
    then show ?thesis
      by (subst chunk_loop.simps, subst window_starts.simps) simp
  next
    case True
    let ?next = "next_pos pos chunk_size overlap"
    show ?thesis
    proof (cases "length doc \<le> ?next")
      case stop: True
      then have "window_starts (length doc) chunk_size overlap ?next = []"
        by (subst window_starts.simps) simp
      with True stop show ?thesis
        by (subst chunk_loop.simps, subst window_starts.simps) (simp add: add_chunk_def)
    next
      case go: False
      with True "1.IH" have
        "chunk_loop doc chunk_size overlap ?next (add_chunk chunks (chunk_at doc pos chunk_size))
          = add_chunk chunks (chunk_at doc pos chunk_size)
            @ filter (\<lambda>c. c \<noteq> []) (map (\<lambda>p. chunk_at doc p chunk_size)
                (window_starts (length doc) chunk_size overlap ?next))"
        by simp
      with True go show ?thesis
        by (subst chunk_loop.simps, subst window_starts.simps) (simp add: add_chunk_def)
    qed
  qed
qed

text \<open>
  Claim C7.  For every chunk size (so for every one that is at least 1) and every
  overlap, one pass of the loop moves the window start forward by
  \<open>chunk_size - overlap\<close>, and by 1 when that is less than 1.  The window starts of a
  run are therefore strictly increasing and all below the text length, there are at
  most as many of them as the text has characters, and the loop, which is a total
  function, returns the non-empty chunks cut at these starts.
\<close>

theorem chunk_loop_progress:
  "int (next_pos pos chunk_size overlap) = int pos + max (chunk_size - overlap) 1
   \<and> pos < next_pos pos chunk_size overlap
   \<and> sorted_wrt (<) (window_starts (length text) chunk_size overlap 0)
   \<and> (\<forall>p\<in>set (window_starts (length text) chunk_size overlap 0). p < length text)
   \<and> length (window_starts (length text) chunk_size overlap 0) \<le> length text
   \<and> split_chunks text chunk_size overlap
       = filter (\<lambda>c. c \<noteq> [])
           (map (\<lambda>p. chunk_at text p chunk_size)
              (window_starts (length text) chunk_size overlap 0))"
  using next_pos_step [of pos chunk_size overlap] next_pos_greater [of pos chunk_size overlap]
    window_starts_increasing [of "length text" chunk_size overlap 0]
    window_starts_bounds [of _ "length text" chunk_size overlap 0]
    window_starts_length [of "length text" chunk_size overlap 0]
    chunk_loop_trace [of "text" chunk_size overlap 0 "[]"]
  by (simp add: split_chunks_def)

theorem chunk_loop_progress_witness:
  "int (next_pos 0 20 5) = int 0 + max (20 - 5) 1
   \<and> 0 < next_pos 0 20 5
   \<and> window_starts (length ''Revenue rose. Costs fell sharply in the year'') 20 5 0 = [0, 15, 30]
   \<and> sorted_wrt (<) [0, 15, 30 :: nat]
   \<and> length [0, 15, 30 :: nat] \<le> length ''Revenue rose. Costs fell sharply in the year''
   \<and> split_chunks ''Revenue rose. Costs fell sharply in the year'' 20 5
       = [''Revenue rose.'', ''osts fell sharply in'', ''ly in the year'']"
proof -
  let ?doc = "''Revenue rose. Costs fell sharply in the year''"
  note r = chunk_loop_progress [of 0 20 5 ?doc]
  have ws: "window_starts (length ?doc) 20 5 0 = [0, 15, 30]" by code_simp
  have sc: "split_chunks ?doc 20 5 = [''Revenue rose.'', ''osts fell sharply in'', ''ly in the year'']"
    by code_simp
  from r have a: "int (next_pos 0 20 5) = int 0 + max (20 - 5) 1" by (rule conjunct1)
  from r have b: "0 < next_pos 0 20 5" by (elim conjE)
  from r have "sorted_wrt (<) (window_starts (length ?doc) 20 5 0)" by (elim conjE)
  then have c: "sorted_wrt (<) [0, 15, 30 :: nat]" unfolding ws .
  from r have "length (window_starts (length ?doc) 20 5 0) \<le> length ?doc" by (elim conjE)
  then have d: "length [0, 15, 30 :: nat] \<le> length ?doc" unfolding ws .
  from a b ws c d sc show ?thesis by (intro conjI)
qed



lemma rfind_lower: "- 1 \<le> rfind s sub a b"
  by (simp add: rfind_def Let_def)














section \<open>Properties of the tabular chunker and of the ingest boundary\<close>

declare row_ranges.simps [simp del]

lemma row_ranges_bounds:
  "(a, b) \<in> set (row_ranges n step i) \<Longrightarrow> i \<le> a \<and> a < b \<and> b \<le> n \<and> b - a \<le> step"
proof (induction n step i rule: row_ranges.induct)
  case (1 n step i)
  show ?case
  proof (cases "0 < step \<and> i < n")
    case True
    with "1.prems" consider "(a, b) = (i, min (i + step) n)"
      | "(a, b) \<in> set (row_ranges n step (i + step))"
      by (subst (asm) row_ranges.simps) auto
    then show ?thesis
    proof cases
      case 1
      with True show ?thesis by auto
    next
      case 2
      with "1.IH" True have "i + step \<le> a \<and> a < b \<and> b \<le> n \<and> b - a \<le> step" by blast
      then show ?thesis by simp
    qed
  next
    case False
    with "1.prems" show ?thesis by (subst (asm) row_ranges.simps) simp
  qed
qed

lemma row_ranges_ascending:
  "sorted_wrt (\<lambda>(a, b) (a', b'). b \<le> a') (row_ranges n step i)"
proof (induction n step i rule: row_ranges.induct)
  case (1 n step i)
  show ?case
  proof (cases "0 < step \<and> i < n")
    case True
    have "min (i + step) n \<le> a'" if "(a', b') \<in> set (row_ranges n step (i + step))" for a' b'
      using row_ranges_bounds [OF that] by simp
    with "1.IH" True show ?thesis by (subst row_ranges.simps) auto
  next
    case False
    then show ?thesis by (subst row_ranges.simps) auto
  qed
qed

lemma row_ranges_cover:
  "0 < step \<Longrightarrow>
   concat (map (\<lambda>(a, b). take (b - a) (drop a xs)) (row_ranges (length xs) step i)) = drop i xs"
proof (induction "length xs" step i rule: row_ranges.induct)
  case (1 step i)
  show ?case
  proof (cases "i < length xs")
    case True
    let ?k = "min (i + step) (length xs) - i"
    have rest: "drop (i + step) xs = drop ?k (drop i xs)"
    proof (cases "i + step \<le> length xs")
      case True
      then show ?thesis by (simp add: add.commute)
    next
      case False
      then show ?thesis by simp
    qed
    have glue: "take ?k (drop i xs) @ drop (i + step) xs = drop i xs"
      unfolding rest by (rule append_take_drop_id)
    from "1.hyps" "1.prems" True
    have "concat (map (\<lambda>(a, b). take (b - a) (drop a xs)) (row_ranges (length xs) step (i + step)))
        = drop (i + step) xs" by simp
    with True "1.prems" glue show ?thesis
      by (subst row_ranges.simps) simp
  next
    case False
    then show ?thesis by (subst row_ranges.simps) simp
  qed
qed

text \<open>
  Claim C8.  For \<open>max_rows_per_chunk \<ge> 1\<close>, \<open>dataframe_to_chunks\<close> returns the schema
  chunk first and then one chunk for each row range \<open>(i, end_idx)\<close> of the loop.  The
  rows of these ranges, one range after the other, are the rows of the table: every
  row is in exactly one range.  No range is empty or holds more than
  \<open>max_rows_per_chunk\<close> rows, and each range ends where the next one starts or before.
\<close>

theorem dataframe_to_chunks_partition:
  assumes "1 \<le> max_rows_per_chunk"
  shows "dataframe_to_chunks write_csv df max_rows_per_chunk sheet_name
           = Inr (schema_info df sheet_name
                  # map (row_chunk write_csv df sheet_name)
                      (row_ranges (length (df_rows df)) (nat max_rows_per_chunk) 0))
       \<and> concat (map (\<lambda>(i, end_idx). df_rows (iloc df i end_idx))
                   (row_ranges (length (df_rows df)) (nat max_rows_per_chunk) 0))
           = df_rows df
       \<and> (\<forall>(i, end_idx)\<in>set (row_ranges (length (df_rows df)) (nat max_rows_per_chunk) 0).
             i < end_idx \<and> end_idx \<le> length (df_rows df)
             \<and> length (df_rows (iloc df i end_idx)) = end_idx - i
             \<and> int (end_idx - i) \<le> max_rows_per_chunk)
       \<and> sorted_wrt (\<lambda>(i, end_idx) (i', end_idx'). end_idx \<le> i')
            (row_ranges (length (df_rows df)) (nat max_rows_per_chunk) 0)"
proof -
  let ?ranges = "row_ranges (length (df_rows df)) (nat max_rows_per_chunk) 0"
  from assms have step: "0 < nat max_rows_per_chunk" by simp
  have a: "dataframe_to_chunks write_csv df max_rows_per_chunk sheet_name
           = Inr (schema_info df sheet_name # map (row_chunk write_csv df sheet_name) ?ranges)"
    using assms by (simp add: dataframe_to_chunks_def)
  have b: "concat (map (\<lambda>(i, end_idx). df_rows (iloc df i end_idx)) ?ranges) = df_rows df"
    using row_ranges_cover [OF step, of "df_rows df" 0] by (simp add: iloc_def)
  have c: "i < end_idx \<and> end_idx \<le> length (df_rows df)
             \<and> length (df_rows (iloc df i end_idx)) = end_idx - i
             \<and> int (end_idx - i) \<le> max_rows_per_chunk"
    if "(i, end_idx) \<in> set ?ranges" for i end_idx
    using row_ranges_bounds [OF that] assms by (auto simp: iloc_def)
  from a b c row_ranges_ascending [of "length (df_rows df)" "nat max_rows_per_chunk" 0]
  show ?thesis by blast
qed

theorem dataframe_to_chunks_partition_witness:
  "(1::int) \<le> 2
   \<and> dataframe_to_chunks write_pairs revenue_table 2 None
       = Inr [''Schema Information:\<newline>Total Rows: 3\<newline>Columns:\<newline>- revenue (int64)\<newline>- year (int64)\<newline>'',
              ''Data Rows 1 to 2:\<newline>revenue,year\<newline>100,2021\<newline>150,2022\<newline>'',
              ''Data Rows 3 to 3:\<newline>revenue,year\<newline>200,2023\<newline>'']
   \<and> row_ranges (length (df_rows revenue_table)) (nat 2) 0 = [(0, 2), (2, 3)]
   \<and> df_rows (iloc revenue_table 0 2) @ df_rows (iloc revenue_table 2 3)
       = df_rows revenue_table"
proof -
  have k: "(1::int) \<le> 2" by simp
  note r = dataframe_to_chunks_partition [OF k, of write_pairs revenue_table None]
  have rr: "row_ranges (length (df_rows revenue_table)) (nat 2) 0 = [(0, 2), (2, 3)]"
    by code_simp
  have v: "schema_info revenue_table None
             # map (row_chunk write_pairs revenue_table None) [(0, 2), (2, 3)]
       = [''Schema Information:\<newline>Total Rows: 3\<newline>Columns:\<newline>- revenue (int64)\<newline>- year (int64)\<newline>'',
          ''Data Rows 1 to 2:\<newline>revenue,year\<newline>100,2021\<newline>150,2022\<newline>'',
          ''Data Rows 3 to 3:\<newline>revenue,year\<newline>200,2023\<newline>'']"
    by code_simp
  from r have a: "dataframe_to_chunks write_pairs revenue_table 2 None
       = Inr [''Schema Information:\<newline>Total Rows: 3\<newline>Columns:\<newline>- revenue (int64)\<newline>- year (int64)\<newline>'',
              ''Data Rows 1 to 2:\<newline>revenue,year\<newline>100,2021\<newline>150,2022\<newline>'',
              ''Data Rows 3 to 3:\<newline>revenue,year\<newline>200,2023\<newline>'']"
    unfolding rr v by (rule conjunct1)
  from r have "concat (map (\<lambda>(i, end_idx). df_rows (iloc revenue_table i end_idx))
                   (row_ranges (length (df_rows revenue_table)) (nat 2) 0))
           = df_rows revenue_table"
    by (elim conjE)
  then have b: "df_rows (iloc revenue_table 0 2) @ df_rows (iloc revenue_table 2 3)
       = df_rows revenue_table"
    unfolding rr by simp
  from k a rr b show ?thesis by (intro conjI)
qed

lemma process_document_try_unsupported:
  "\<not> supported_extension (file_extension file_path) \<Longrightarrow>
   process_document_try lib file_path
     = ([], Inl (ValueError (''Unsupported file extension: '' @ file_extension file_path)))"
  by (simp add: process_document_try_def supported_extension_def)

text \<open>
  Claim C1, as the code has it.  For a file whose lowercased extension is none of
  \<open>.pdf\<close>, \<open>.csv\<close>, \<open>.xlsx\<close>, \<open>.xls\<close>, the \<open>ValueError\<close> raised inside
  \<open>process_document\<close> is caught by the handler of the same function: the call prints
  \<open>Error processing document: Unsupported file extension: <ext>\<close> and returns the
  empty chunk list; no exception reaches the caller.
\<close>

theorem process_document_unsupported:
  assumes "\<not> supported_extension (file_extension file_path)"
  shows "process_document lib file_path
           = ([''Error processing document: Unsupported file extension: ''
                 @ file_extension file_path], Inr [])"
  by (simp add: process_document_def process_document_try_unsupported [OF assms])

lemma file_extension_examples:
  "file_extension ''/tmp/Report.TXT'' = ''.txt''"
  "file_extension ''/tmp/a.b/.bashrc'' = []"
  "file_extension ''/tmp/a.b/x.tar.CSV'' = ''.csv''"
  "file_extension ''/tmp/a.b/x'' = []"
  "file_extension ''...pdf'' = []"
  "file_extension ''a...pdf'' = ''.pdf''"
  by code_simp+

theorem process_document_unsupported_witness:
  "\<not> supported_extension (file_extension ''/tmp/report.txt'')
   \<and> process_document no_files ''/tmp/report.txt''
       = ([''Error processing document: Unsupported file extension: .txt''], Inr [])"
proof -
  have k: "\<not> supported_extension (file_extension ''/tmp/report.txt'')" by code_simp
  have e: "file_extension ''/tmp/report.txt'' = ''.txt''" by code_simp
  from process_document_unsupported [OF k, of no_files]
  have "process_document no_files ''/tmp/report.txt''
       = ([''Error processing document: Unsupported file extension: .txt''], Inr [])"
    unfolding e by simp
  with k show ?thesis by (intro conjI)
qed

text \<open>
  The claim as stated fails: for \<open>notes.docx\<close> the call does not fail with the
  unsupported-format error, it returns the empty list.
\<close>

theorem process_document_unsupported_counterexample:
  "\<not> supported_extension (file_extension ''notes.docx'')
   \<and> \<not> fails_unsupported (process_document no_files ''notes.docx'')
   \<and> snd (process_document no_files ''notes.docx'') = Inr []"
  by code_simp

end
